theory Spec2Isabelle
  imports Main "HOL-Library.Sublist" "HOL-Library.List_Lexorder" "HOL-Library.Char_ord"
begin

section \<open>Data model\<close>

text \<open>
  Go strings and byte slices are sequences of bytes; both are modelled by
  \<^typ>\<open>string\<close> (a list of 8-bit characters). A nil slice and an empty slice
  are the same list.
\<close>

type_synonym bytes = string

text \<open>
  The three structs of package Communication. The stored record and the returned record
  repeat field names of the request; their fields carry a prefix here.
\<close>

record ConfidentialMessageBySender =
  Sender :: string
  Receivers :: "string list"
  Message :: bytes
  Note :: string

record MessageForReceiver =
  mfrSender :: string
  mfrReceiver :: string
  mfrMessages :: "bytes list"
  mfrNotes :: "string list"

record ReturnMessages =
  retMessages :: "string list"
  retNotes :: "string list"

text \<open>
  A JSON document is represented by what \<^verbatim>\<open>json.Unmarshal\<close> decodes it to;
  bytes that do not decode to the expected struct are \<open>Malformed\<close>.
  \<^verbatim>\<open>json.Marshal\<close> of a struct is the document that decodes to it.
\<close>

datatype 'a json = Doc 'a | Malformed

text \<open>
  One constructor for each place where the source builds an error. An error that wraps
  another one (\<^verbatim>\<open>fmt.Errorf("...: %s", err.Error())\<close>) carries it. A Go panic
  (an index out of range) aborts the transaction and is an error value as well.
\<close>

datatype error =
    StubFailure
  | InvalidKeyAttribute string
  | EmptyCollectionName
  | EmptyKey
  | IndexOutOfRange
  | JSONSyntaxError
  | FailedCreateCompositeKey error
  | FailedReadMessageNotice error
  | FailedPutValue error
  | FailedSplitCompositeKey error
  | ErrorGettingTransient error
  | MessageNotFoundInTransient
  | FailedUnmarshalJSON error
  | SenderFieldEmpty
  | ReceiversFieldEmpty
  | MessageFieldEmpty
  | NoteFieldEmpty
  | FailedGetVerifiedMSPID error
  | SenderClientMismatch string string
  | CreateMessageCannotBePerformed error
  | FailedGetMessage error
  | FailedMarshalJSON error
  | FailedPutMarble error
  | FailedCreateMessageNotice error
  | ReceiverClientMismatch
  | NoMessage string string
  | FailedGettingClientMSPID error
  | FailedGettingPeerMSPID error
  | ClientNotAuthorized string string
  | FailedReadFromWorldState error

section \<open>The ledger interface\<close>

text \<open>
  Modelled from the spec: the ledger interface of section 6 (point reads and writes that
  are snapshot-consistent within a transaction, a scan by key prefix in key order, the
  composite-key facility, the transaction context) and the rule of section 7 that a failed
  operation commits nothing. The chaincode reaches the ledger only through the Fabric
  stub, which the source imports and which is not part of the repository; the definitions
  of this section follow the stub's behaviour.

  The committed state has a public part, the world state, kept as an association list in
  ascending key order (the order a scan returns), and the private data collections, a map
  from collection name and key to the stored document.
\<close>

record ledger =
  world :: "(string \<times> bytes) list"
  pdc :: "string \<times> string \<Rightarrow> MessageForReceiver json option"

text \<open>
  Every call that reaches the state is recorded in the order made. The writes among them
  are the write set of the transaction. \<open>NextOp\<close> stands for one step of an iterator; it is
  never recorded and only names the step in \<open>faulty\<close> below.
\<close>

datatype access =
    GetStateOp string
  | PutStateOp string bytes
  | RangeOp string
  | NextOp string
  | GetPrivateOp string string
  | PutPrivateOp string string "MessageForReceiver json"

text \<open>
  The transaction context: the committed state the transaction is simulated against, the
  transient map of the proposal (\<open>None\<close>: it cannot be read), the MSP id of the submitting
  client and of the executing peer (\<open>None\<close>: the lookup fails), and the stub calls that
  fail in this transaction for reasons outside the chaincode.
\<close>

record ctx =
  state :: ledger
  transient :: "(string \<Rightarrow> ConfidentialMessageBySender json option) option"
  clientMSPID :: "string option"
  peerMSPID :: "string option"
  faulty :: "access \<Rightarrow> bool"

definition minUnicodeRuneValue :: string where
  "minUnicodeRuneValue = [CHR 0x00]"

definition maxUnicodeRuneValue :: string where
  "maxUnicodeRuneValue = [CHR 0xF4, CHR 0x8F, CHR 0xBF, CHR 0xBF]"

definition compositeKeyNamespace :: string where
  "compositeKeyNamespace = [CHR 0x00]"

definition continuation :: "char \<Rightarrow> nat \<Rightarrow> nat \<Rightarrow> bool" where
  "continuation c lo hi = (lo \<le> (of_char c :: nat) \<and> (of_char c :: nat) \<le> hi)"

text \<open>Well-formed UTF-8, by the table of lead bytes and the ranges of the bytes after them.\<close>

fun utf8_ValidString :: "string \<Rightarrow> bool" where
  "utf8_ValidString [] = True"
| "utf8_ValidString (c # cs) =
     (let b = (of_char c :: nat) in
      if b < 0x80 then utf8_ValidString cs
      else if 0xC2 \<le> b \<and> b \<le> 0xDF then
        (case cs of c1 # r \<Rightarrow> continuation c1 0x80 0xBF \<and> utf8_ValidString r | _ \<Rightarrow> False)
      else if 0xE0 \<le> b \<and> b \<le> 0xEF then
        (case cs of c1 # c2 # r \<Rightarrow>
           continuation c1 (if b = 0xE0 then 0xA0 else 0x80) (if b = 0xED then 0x9F else 0xBF)
           \<and> continuation c2 0x80 0xBF \<and> utf8_ValidString r
         | _ \<Rightarrow> False)
      else if 0xF0 \<le> b \<and> b \<le> 0xF4 then
        (case cs of c1 # c2 # c3 # r \<Rightarrow>
           continuation c1 (if b = 0xF0 then 0x90 else 0x80) (if b = 0xF4 then 0x8F else 0xBF)
           \<and> continuation c2 0x80 0xBF \<and> continuation c3 0x80 0xBF \<and> utf8_ValidString r
         | _ \<Rightarrow> False)
      else False)"

fun containsRune :: "string \<Rightarrow> string \<Rightarrow> bool" where
  "containsRune r [] = False"
| "containsRune r (c # cs) = (prefix r (c # cs) \<or> containsRune r cs)"

definition validateCompositeKeyAttribute :: "string \<Rightarrow> bool" where
  "validateCompositeKeyAttribute str =
     (utf8_ValidString str \<and> \<not> containsRune minUnicodeRuneValue str
      \<and> \<not> containsRune maxUnicodeRuneValue str)"

fun appendAttributes :: "string \<Rightarrow> string list \<Rightarrow> error + string" where
  "appendAttributes ck [] = Inr ck"
| "appendAttributes ck (att # atts) =
     (if validateCompositeKeyAttribute att
      then appendAttributes (ck @ att @ minUnicodeRuneValue) atts
      else Inl (InvalidKeyAttribute att))"

definition CreateCompositeKey :: "string \<Rightarrow> string list \<Rightarrow> error + string" where
  "CreateCompositeKey objectType attributes =
     (if validateCompositeKeyAttribute objectType
      then appendAttributes (compositeKeyNamespace @ objectType @ minUnicodeRuneValue) attributes
      else Inl (InvalidKeyAttribute objectType))"

text \<open>
  Splitting skips the namespace byte and cuts at every zero byte; what follows the last
  zero byte is dropped. The first component is the object type, the others the attributes;
  with no component at all the stub indexes an empty slice and panics, which ends the
  transaction like an error of the call.
\<close>

fun components :: "string \<Rightarrow> string \<Rightarrow> string list" where
  "components cur [] = []"
| "components cur (c # cs) =
     (if [c] = minUnicodeRuneValue then cur # components [] cs else components (cur @ [c]) cs)"

definition SplitCompositeKey :: "string \<Rightarrow> error + (string \<times> string list)" where
  "SplitCompositeKey compositeKey =
     (case components [] (tl compositeKey) of
        [] \<Rightarrow> Inl IndexOutOfRange
      | objectType # attributes \<Rightarrow> Inr (objectType, attributes))"

text \<open>Indexing a slice: out of range is a panic.\<close>

definition index :: "'a list \<Rightarrow> nat \<Rightarrow> error + 'a" where
  "index xs i = (if i < length xs then Inr (xs ! i) else Inl IndexOutOfRange)"

text \<open>\<^verbatim>\<open>bytes.Equal\<close>; a missing value is the nil slice, which equals the empty one.\<close>

definition bytes_Equal :: "bytes option \<Rightarrow> bytes \<Rightarrow> bool" where
  "bytes_Equal a b = ((case a of None \<Rightarrow> [] | Some v \<Rightarrow> v) = b)"

text \<open>
  Reads see the committed state, never the writes the transaction has made so far; a
  write is only recorded. The scan by partial composite key returns the entries whose key
  starts with the partial key, in the order of the world state.
\<close>

definition GetState :: "ctx \<Rightarrow> string \<Rightarrow> access list \<Rightarrow> (error + bytes option) \<times> access list" where
  "GetState c key lg =
     (if faulty c (GetStateOp key) then (Inl StubFailure, lg)
      else (Inr (map_of (world (state c)) key), lg @ [GetStateOp key]))"

definition PutState :: "ctx \<Rightarrow> string \<Rightarrow> bytes \<Rightarrow> access list \<Rightarrow> (error + unit) \<times> access list" where
  "PutState c key val lg =
     (if key = [] then (Inl EmptyKey, lg)
      else if faulty c (PutStateOp key val) then (Inl StubFailure, lg)
      else (Inr (), lg @ [PutStateOp key val]))"

definition GetStateByPartialCompositeKey ::
  "ctx \<Rightarrow> string \<Rightarrow> string list \<Rightarrow> access list \<Rightarrow> (error + (string \<times> bytes) list) \<times> access list" where
  "GetStateByPartialCompositeKey c objectType attributes lg =
     (case CreateCompositeKey objectType attributes of
        Inl e \<Rightarrow> (Inl e, lg)
      | Inr partialKey \<Rightarrow>
          if faulty c (RangeOp partialKey) then (Inl StubFailure, lg)
          else (Inr (filter (\<lambda>item. prefix partialKey (fst item)) (world (state c))),
                lg @ [RangeOp partialKey]))"

definition GetPrivateData ::
  "ctx \<Rightarrow> string \<Rightarrow> string \<Rightarrow> access list \<Rightarrow> (error + MessageForReceiver json option) \<times> access list" where
  "GetPrivateData c collection key lg =
     (if collection = [] then (Inl EmptyCollectionName, lg)
      else if faulty c (GetPrivateOp collection key) then (Inl StubFailure, lg)
      else (Inr (pdc (state c) (collection, key)), lg @ [GetPrivateOp collection key]))"

definition PutPrivateData ::
  "ctx \<Rightarrow> string \<Rightarrow> string \<Rightarrow> MessageForReceiver json \<Rightarrow> access list \<Rightarrow> (error + unit) \<times> access list" where
  "PutPrivateData c collection key val lg =
     (if collection = [] then (Inl EmptyCollectionName, lg)
      else if key = [] then (Inl EmptyKey, lg)
      else if faulty c (PutPrivateOp collection key val) then (Inl StubFailure, lg)
      else (Inr (), lg @ [PutPrivateOp collection key val]))"

text \<open>The conversion \<^verbatim>\<open>string(b)\<close> of a byte slice keeps the bytes.\<close>

definition string_of_bytes :: "bytes \<Rightarrow> string" where
  "string_of_bytes b = b"

definition json_Unmarshal :: "'a json \<Rightarrow> error + 'a" where
  "json_Unmarshal d = (case d of Doc v \<Rightarrow> Inr v | Malformed \<Rightarrow> Inl JSONSyntaxError)"

definition json_Marshal :: "'a \<Rightarrow> error + 'a json" where
  "json_Marshal v = Inr (Doc v)"

text \<open>Committing a write set: the writes are applied in the order made.\<close>

fun putKV :: "string \<Rightarrow> bytes \<Rightarrow> (string \<times> bytes) list \<Rightarrow> (string \<times> bytes) list" where
  "putKV k v [] = [(k, v)]"
| "putKV k v ((k', v') # kvs) =
     (if k = k' then (k, v) # kvs
      else if k < k' then (k, v) # (k', v') # kvs
      else (k', v') # putKV k v kvs)"

fun apply_access :: "access \<Rightarrow> ledger \<Rightarrow> ledger" where
  "apply_access (PutStateOp k v) l = l\<lparr>world := putKV k v (world l)\<rparr>"
| "apply_access (PutPrivateOp col k v) l = l\<lparr>pdc := (pdc l)((col, k) \<mapsto> v)\<rparr>"
| "apply_access _ l = l"

definition commit :: "ledger \<Rightarrow> access list \<Rightarrow> ledger" where
  "commit l lg = fold apply_access lg l"

section \<open>The chaincode\<close>

definition CreateMessageNotice ::
  "ctx \<Rightarrow> string \<Rightarrow> string \<Rightarrow> access list \<Rightarrow> (error + unit) \<times> access list" where
  "CreateMessageNotice c sender receiver lg =
     (case CreateCompositeKey ''mn'' [receiver, sender] of
        Inl e \<Rightarrow> (Inl (FailedCreateCompositeKey e), lg)
      | Inr key \<Rightarrow>
          (case GetState c key lg of
             (Inl e, lg1) \<Rightarrow> (Inl (FailedReadMessageNotice e), lg1)
           | (Inr messageNoticeBytes, lg1) \<Rightarrow>
               if bytes_Equal messageNoticeBytes ''1'' then (Inr (), lg1)
               else (case PutState c key ''1'' lg1 of
                       (Inl e, lg2) \<Rightarrow> (Inl (FailedPutValue e), lg2)
                     | (Inr u, lg2) \<Rightarrow> (Inr (), lg2))))"

text \<open>The body of the loop over the iterator, with the senders collected so far.\<close>

fun ReadMessageNotice_loop ::
  "ctx \<Rightarrow> string \<Rightarrow> (string \<times> bytes) list \<Rightarrow> string list \<Rightarrow> access list
     \<Rightarrow> (error + string list) \<times> access list" where
  "ReadMessageNotice_loop c receiver [] senders lg = (Inr senders, lg)"
| "ReadMessageNotice_loop c receiver (item # rs) senders lg =
     (if faulty c (NextOp (fst item)) then (Inl StubFailure, lg)
      else if bytes_Equal (Some (snd item)) ''1'' then
        (case SplitCompositeKey (fst item) of
           Inl e \<Rightarrow> (Inl (FailedSplitCompositeKey e), lg)
         | Inr (objectType, keyPart) \<Rightarrow>
             (case index keyPart 1 of
                Inl e \<Rightarrow> (Inl e, lg)
              | Inr sender \<Rightarrow>
                  (case CreateCompositeKey ''mn'' [receiver, sender] of
                     Inl e \<Rightarrow> (Inl (FailedCreateCompositeKey e), lg)
                   | Inr key \<Rightarrow>
                       (case PutState c key ''0'' lg of
                          (Inl e, lg1) \<Rightarrow> (Inl (FailedPutValue e), lg1)
                        | (Inr u, lg1) \<Rightarrow>
                            ReadMessageNotice_loop c receiver rs (senders @ [sender]) lg1))))
      else
        (case SplitCompositeKey (fst item) of
           Inl e \<Rightarrow> (Inl (FailedSplitCompositeKey e), lg)
         | Inr (objectType, keyPart) \<Rightarrow>
             (case index keyPart 0 of
                Inl e \<Rightarrow> (Inl e, lg)
              | Inr sender \<Rightarrow>
                  ReadMessageNotice_loop c receiver rs (senders @ [sender]) lg)))"

definition ReadMessageNotice ::
  "ctx \<Rightarrow> string \<Rightarrow> access list \<Rightarrow> (error + string list) \<times> access list" where
  "ReadMessageNotice c receiver lg =
     (case GetStateByPartialCompositeKey c ''mn'' [receiver] lg of
        (Inl e, lg1) \<Rightarrow> (Inl (FailedCreateCompositeKey e), lg1)
      | (Inr rs, lg1) \<Rightarrow> ReadMessageNotice_loop c receiver rs [] lg1)"

definition MessageNoticeExists ::
  "ctx \<Rightarrow> string \<Rightarrow> access list \<Rightarrow> (error + bool) \<times> access list" where
  "MessageNoticeExists c key lg =
     (case GetState c key lg of
        (Inl e, lg1) \<Rightarrow> (Inl (FailedReadFromWorldState e), lg1)
      | (Inr messageNoticeJSON, lg1) \<Rightarrow> (Inr (messageNoticeJSON \<noteq> None), lg1))"

definition verifyClientOrgMatchesPeerOrg :: "ctx \<Rightarrow> error + unit" where
  "verifyClientOrgMatchesPeerOrg c =
     (case clientMSPID c of
        None \<Rightarrow> Inl (FailedGettingClientMSPID StubFailure)
      | Some client \<Rightarrow>
          (case peerMSPID c of
             None \<Rightarrow> Inl (FailedGettingPeerMSPID StubFailure)
           | Some peer \<Rightarrow>
               if client \<noteq> peer then Inl (ClientNotAuthorized client peer) else Inr ()))"

text \<open>The body of the loop over the receivers of one request.\<close>

fun CreateConfidentialMessageBySender_loop ::
  "ctx \<Rightarrow> ConfidentialMessageBySender \<Rightarrow> string list \<Rightarrow> access list
     \<Rightarrow> (error + unit) \<times> access list" where
  "CreateConfidentialMessageBySender_loop c messageInput [] lg = (Inr (), lg)"
| "CreateConfidentialMessageBySender_loop c messageInput (receiver # rest) lg =
     (case GetPrivateData c (Sender messageInput @ ''MSPCollection'') receiver lg of
        (Inl e, lg1) \<Rightarrow> (Inl (FailedGetMessage e), lg1)
      | (Inr oldMessageAsBytes, lg1) \<Rightarrow>
          (case (case oldMessageAsBytes of
                   Some old \<Rightarrow>
                     (case json_Unmarshal old of
                        Inl e \<Rightarrow> Inl (FailedUnmarshalJSON e)
                      | Inr oldMessage \<Rightarrow>
                          Inr (mfrMessages oldMessage @ [Message messageInput],
                               mfrNotes oldMessage @ [Note messageInput]))
                 | None \<Rightarrow> Inr ([Message messageInput], [Note messageInput])) of
             Inl e \<Rightarrow> (Inl e, lg1)
           | Inr (messages, notes) \<Rightarrow>
               let newMessage = \<lparr>mfrSender = Sender messageInput, mfrReceiver = receiver,
                                  mfrMessages = messages, mfrNotes = notes\<rparr>
               in (case json_Marshal newMessage of
                     Inl e \<Rightarrow> (Inl (FailedMarshalJSON e), lg1)
                   | Inr newMessageJSONasBytes \<Rightarrow>
                       (case PutPrivateData c (Sender messageInput @ ''MSPCollection'') receiver
                               newMessageJSONasBytes lg1 of
                          (Inl e, lg2) \<Rightarrow> (Inl (FailedPutMarble e), lg2)
                        | (Inr u, lg2) \<Rightarrow>
                            (case CreateMessageNotice c (mfrSender newMessage)
                                    (mfrReceiver newMessage) lg2 of
                               (Inl e, lg3) \<Rightarrow> (Inl (FailedCreateMessageNotice e), lg3)
                             | (Inr u', lg3) \<Rightarrow>
                                 CreateConfidentialMessageBySender_loop c messageInput rest lg3)))))"

definition CreateConfidentialMessageBySender ::
  "ctx \<Rightarrow> access list \<Rightarrow> (error + unit) \<times> access list" where
  "CreateConfidentialMessageBySender c lg =
     (case transient c of
        None \<Rightarrow> (Inl (ErrorGettingTransient StubFailure), lg)
      | Some transMap \<Rightarrow>
          (case transMap ''message'' of
             None \<Rightarrow> (Inl MessageNotFoundInTransient, lg)
           | Some transientMessageJSON \<Rightarrow>
               (case json_Unmarshal transientMessageJSON of
                  Inl e \<Rightarrow> (Inl (FailedUnmarshalJSON e), lg)
                | Inr messageInput \<Rightarrow>
                    if length (Sender messageInput) = 0 then (Inl SenderFieldEmpty, lg)
                    else if length (Receivers messageInput) = 0 then (Inl ReceiversFieldEmpty, lg)
                    else if length (Message messageInput) = 0 then (Inl MessageFieldEmpty, lg)
                    else if length (Note messageInput) = 0 then (Inl NoteFieldEmpty, lg)
                    else
                      (case clientMSPID c of
                         None \<Rightarrow> (Inl (FailedGetVerifiedMSPID StubFailure), lg)
                       | Some client \<Rightarrow>
                           if Sender messageInput @ ''MSP'' \<noteq> client
                           then (Inl (SenderClientMismatch (Sender messageInput) client), lg)
                           else
                             (case verifyClientOrgMatchesPeerOrg c of
                                Inl e \<Rightarrow> (Inl (CreateMessageCannotBePerformed e), lg)
                              | Inr u \<Rightarrow>
                                  CreateConfidentialMessageBySender_loop c messageInput
                                    (Receivers messageInput) lg)))))"

definition ReadConfidentialMessage ::
  "ctx \<Rightarrow> string \<Rightarrow> string \<Rightarrow> access list \<Rightarrow> (error + ReturnMessages) \<times> access list" where
  "ReadConfidentialMessage c sender receiver lg =
     (case clientMSPID c of
        None \<Rightarrow> (Inl (FailedGetVerifiedMSPID StubFailure), lg)
      | Some client \<Rightarrow>
          if receiver @ ''MSP'' \<noteq> client then (Inl ReceiverClientMismatch, lg)
          else
            (case GetPrivateData c (sender @ ''MSPCollection'') receiver lg of
               (Inl e, lg1) \<Rightarrow> (Inl (FailedGetMessage e), lg1)
             | (Inr None, lg1) \<Rightarrow> (Inl (NoMessage receiver (sender @ ''MSPCollection'')), lg1)
             | (Inr (Some messageAsBytes), lg1) \<Rightarrow>
                 (case json_Unmarshal messageAsBytes of
                    Inl e \<Rightarrow> (Inl (FailedUnmarshalJSON e), lg1)
                  | Inr message \<Rightarrow>
                      (Inr \<lparr>retMessages = map string_of_bytes (mfrMessages message),
                            retNotes = mfrNotes message\<rparr>, lg1))))"

section \<open>Transactions\<close>

text \<open>
  A transaction invokes one function of the contract against the committed state. Its
  writes are committed when the function returns no error and dropped otherwise. Every
  exported method of the contract is a transaction: the send, the two reads, and also
  \<^verbatim>\<open>CreateMessageNotice\<close> and \<^verbatim>\<open>MessageNoticeExists\<close> called on their own.
\<close>

datatype call =
    SendCall
  | ReadNoticesCall string
  | ReadMessagesCall string string
  | CreateNoticeCall string string
  | NoticeExistsCall string

datatype response =
    NoResponse
  | SendersResponse "string list"
  | MessagesResponse ReturnMessages
  | ExistsResponse bool

definition lift_response :: "('a \<Rightarrow> response) \<Rightarrow> (error + 'a) \<times> access list \<Rightarrow> (error + response) \<times> access list" where
  "lift_response f r = (case r of (Inl e, lg) \<Rightarrow> (Inl e, lg) | (Inr v, lg) \<Rightarrow> (Inr (f v), lg))"

fun invoke :: "ctx \<Rightarrow> call \<Rightarrow> (error + response) \<times> access list" where
  "invoke c SendCall = lift_response (\<lambda>u. NoResponse) (CreateConfidentialMessageBySender c [])"
| "invoke c (ReadNoticesCall receiver) = lift_response SendersResponse (ReadMessageNotice c receiver [])"
| "invoke c (ReadMessagesCall sender receiver) =
     lift_response MessagesResponse (ReadConfidentialMessage c sender receiver [])"
| "invoke c (CreateNoticeCall sender receiver) =
     lift_response (\<lambda>u. NoResponse) (CreateMessageNotice c sender receiver [])"
| "invoke c (NoticeExistsCall key) = lift_response ExistsResponse (MessageNoticeExists c key [])"

definition submit :: "ledger \<Rightarrow> ctx \<times> call \<Rightarrow> ledger" where
  "submit l tx =
     (case invoke ((fst tx)\<lparr>state := l\<rparr>) (snd tx) of
        (Inl e, lg) \<Rightarrow> l
      | (Inr r, lg) \<Rightarrow> commit l lg)"

definition run :: "ledger \<Rightarrow> (ctx \<times> call) list \<Rightarrow> ledger" where
  "run l txs = foldl submit l txs"

definition empty_ledger :: ledger where
  "empty_ledger = \<lparr>world = [], pdc = (\<lambda>k. None)\<rparr>"

section \<open>Two transactions on one snapshot\<close>

text \<open>
  Modelled from the spec: the commit-time validation of section 5. The ledger simulates
  each transaction against a snapshot, buffers its writes and validates it for read/write
  conflicts against the transactions ordered before it; a transaction that read a key,
  or scanned a range, which a transaction committed since its snapshot has written, has
  read stale state and is rejected (a StorageError of section 7, to be resubmitted by the
  caller). This validation belongs to the ledger, not to the repository.

  \<open>invalidates w r\<close>: the write \<open>w\<close> makes the read \<open>r\<close> stale. \<open>stale ws lg\<close>: a write of
  the committed write set \<open>ws\<close> makes a read of \<open>lg\<close> stale.
\<close>

fun invalidates :: "access \<Rightarrow> access \<Rightarrow> bool" where
  "invalidates (PutStateOp k v) (GetStateOp k') = (k = k')"
| "invalidates (PutStateOp k v) (RangeOp partialKey) = prefix partialKey k"
| "invalidates (PutPrivateOp col k v) (GetPrivateOp col' k') = (col = col' \<and> k = k')"
| "invalidates w r = False"

definition stale :: "access list \<Rightarrow> access list \<Rightarrow> bool" where
  "stale ws lg = list_ex (\<lambda>w. list_ex (invalidates w) lg) ws"

text \<open>
  What the ledger answers for a transaction: it is valid and committed, the chaincode
  returned an error, or validation rejected it for a conflict.
\<close>

datatype verdict = Valid response | Failed error | MVCCConflict

text \<open>
  Two transactions are simulated against the same committed state and then ordered, the
  first before the second. The first is committed when its function returned no error. The
  second is committed when its function returned no error and none of its reads is stale
  after the first.
\<close>

definition submit_concurrent ::
  "ledger \<Rightarrow> ctx \<times> call \<Rightarrow> ctx \<times> call \<Rightarrow> ledger \<times> verdict \<times> verdict" where
  "submit_concurrent l tx1 tx2 =
     (let (l1, v1, ws) =
            (case invoke ((fst tx1)\<lparr>state := l\<rparr>) (snd tx1) of
               (Inl e, lg) \<Rightarrow> (l, Failed e, [])
             | (Inr r, lg) \<Rightarrow> (commit l lg, Valid r, lg))
      in case invoke ((fst tx2)\<lparr>state := l\<rparr>) (snd tx2) of
           (Inl e, lg) \<Rightarrow> (l1, v1, Failed e)
         | (Inr r, lg) \<Rightarrow>
             if stale ws lg then (l1, v1, MVCCConflict) else (commit l1 lg, v1, Valid r))"

section \<open>Notions used in the statements\<close>

text \<open>The key of the notice of a receiver and a sender, and the prefix a scan for a receiver uses.\<close>

definition noticeKey :: "string \<Rightarrow> string \<Rightarrow> string" where
  "noticeKey receiver sender =
     compositeKeyNamespace @ ''mn'' @ minUnicodeRuneValue @ receiver @ minUnicodeRuneValue
       @ sender @ minUnicodeRuneValue"

definition noticePrefix :: "string \<Rightarrow> string" where
  "noticePrefix receiver =
     compositeKeyNamespace @ ''mn'' @ minUnicodeRuneValue @ receiver @ minUnicodeRuneValue"

text \<open>The request a proposal carries in its transient map, when it decodes.\<close>

definition request :: "ctx \<Rightarrow> ConfidentialMessageBySender option" where
  "request c =
     (case transient c of
        None \<Rightarrow> None
      | Some transMap \<Rightarrow>
          (case transMap ''message'' of Some (Doc p) \<Rightarrow> Some p | _ \<Rightarrow> None))"

text \<open>A transaction succeeds on a ledger when the function it invokes returns no error.\<close>

definition succeeds :: "ledger \<Rightarrow> ctx \<times> call \<Rightarrow> bool" where
  "succeeds l tx =
     (case fst (invoke ((fst tx)\<lparr>state := l\<rparr>) (snd tx)) of Inr r \<Rightarrow> True | Inl e \<Rightarrow> False)"

text \<open>
  The request of a transaction that is a successful send (a list with at most one element),
  and the requests of the sends that succeeded in a sequence of transactions, in their
  order: the history of the ledger that \<open>run\<close> builds.
\<close>

definition sent :: "ledger \<Rightarrow> ctx \<times> call \<Rightarrow> ConfidentialMessageBySender list" where
  "sent l tx =
     (if snd tx = SendCall \<and> succeeds l tx
      then (case request (fst tx) of Some p \<Rightarrow> [p] | None \<Rightarrow> [])
      else [])"

fun successful_sends :: "ledger \<Rightarrow> (ctx \<times> call) list \<Rightarrow> ConfidentialMessageBySender list" where
  "successful_sends l [] = []"
| "successful_sends l (tx # txs) = sent l tx @ successful_sends (submit l tx) txs"

text \<open>
  The pair of sender and receiver of a transaction that is a successful call of
  \<^verbatim>\<open>CreateMessageNotice\<close> on its own, and the pairs of such calls in a sequence of
  transactions.
\<close>

definition noticed :: "ledger \<Rightarrow> ctx \<times> call \<Rightarrow> (string \<times> string) list" where
  "noticed l tx =
     (case snd tx of
        CreateNoticeCall sender receiver \<Rightarrow> if succeeds l tx then [(sender, receiver)] else []
      | _ \<Rightarrow> [])"


definition addressed :: "string \<Rightarrow> string \<Rightarrow> ConfidentialMessageBySender \<Rightarrow> bool" where
  "addressed sender receiver p = (Sender p = sender \<and> receiver \<in> set (Receivers p))"

text \<open>
  Two contexts for examples: a proposal of a client of organisation \<open>org\<close>, executed by a
  peer of the same organisation, that carries a request, and one that carries none. No
  stub call fails.
\<close>

definition proposal :: "string \<Rightarrow> ConfidentialMessageBySender \<Rightarrow> ctx" where
  "proposal org p =
     \<lparr>state = empty_ledger, transient = Some [''message'' \<mapsto> Doc p],
      clientMSPID = Some (org @ ''MSP''), peerMSPID = Some (org @ ''MSP''),
      faulty = (\<lambda>a. False)\<rparr>"

definition query :: "string \<Rightarrow> ctx" where
  "query org =
     \<lparr>state = empty_ledger, transient = Some (\<lambda>k. None),
      clientMSPID = Some (org @ ''MSP''), peerMSPID = Some (org @ ''MSP''),
      faulty = (\<lambda>a. False)\<rparr>"

definition hello :: "string \<Rightarrow> string list \<Rightarrow> ctx \<times> call" where
  "hello sender receivers =
     (proposal sender \<lparr>Sender = sender, Receivers = receivers, Message = ''hello'',
                       Note = ''greeting''\<rparr>, SendCall)"


definition first_msg :: "ctx \<times> call" where
  "first_msg =
     (proposal ''A'' \<lparr>Sender = ''A'', Receivers = [''B'', ''C''], Message = ''m1'', Note = ''n1''\<rparr>,
      SendCall)"

definition second_msg :: "ctx \<times> call" where
  "second_msg =
     (proposal ''A'' \<lparr>Sender = ''A'', Receivers = [''B''], Message = ''m2'', Note = ''n2''\<rparr>,
      SendCall)"

text \<open>
  The record a successful send stores for one receiver, computed from the committed state
  the transaction reads, and the calls to the state it makes for that receiver.
\<close>

definition appended :: "ledger \<Rightarrow> ConfidentialMessageBySender \<Rightarrow> string \<Rightarrow> MessageForReceiver" where
  "appended l p receiver =
     \<lparr>mfrSender = Sender p, mfrReceiver = receiver,
      mfrMessages =
        (case pdc l (Sender p @ ''MSPCollection'', receiver) of
           Some (Doc old) \<Rightarrow> mfrMessages old | _ \<Rightarrow> []) @ [Message p],
      mfrNotes =
        (case pdc l (Sender p @ ''MSPCollection'', receiver) of
           Some (Doc old) \<Rightarrow> mfrNotes old | _ \<Rightarrow> []) @ [Note p]\<rparr>"

definition deliver :: "ledger \<Rightarrow> ConfidentialMessageBySender \<Rightarrow> string \<Rightarrow> access list" where
  "deliver l p receiver =
     [GetPrivateOp (Sender p @ ''MSPCollection'') receiver,
      PutPrivateOp (Sender p @ ''MSPCollection'') receiver (Doc (appended l p receiver)),
      GetStateOp (noticeKey receiver (Sender p))]
     @ (if map_of (world l) (noticeKey receiver (Sender p)) = Some ''1'' then []
        else [PutStateOp (noticeKey receiver (Sender p)) ''1''])"

text \<open>
  A notice of a receiver, given by its sender and its flag: its entry in the world state,
  the write that marks it read when it is unread, and what a scan reports for it.
\<close>

definition entry :: "string \<Rightarrow> string \<times> bytes \<Rightarrow> string \<times> bytes" where
  "entry receiver sv = (noticeKey receiver (fst sv), snd sv)"

definition drained :: "string \<Rightarrow> string \<times> bytes \<Rightarrow> access list" where
  "drained receiver sv =
     (if snd sv = ''1'' then [PutStateOp (noticeKey receiver (fst sv)) ''0''] else [])"

definition reported :: "string \<Rightarrow> string \<times> bytes \<Rightarrow> string" where
  "reported receiver sv = (if snd sv = ''1'' then fst sv else receiver)"

text \<open>
  The invariant of the world state: the keys ascend strictly, and every entry is a notice,
  keyed by a receiver and a sender that pass the validation of key attributes, with the flag
  \<open>0\<close> (read) or \<open>1\<close> (unread).
\<close>

definition notice_item :: "string \<times> bytes \<Rightarrow> bool" where
  "notice_item kv =
     (\<exists>r s. validateCompositeKeyAttribute r \<and> validateCompositeKeyAttribute s
        \<and> fst kv = noticeKey r s \<and> (snd kv = ''0'' \<or> snd kv = ''1''))"

definition wf_world :: "(string \<times> bytes) list \<Rightarrow> bool" where
  "wf_world w = (sorted_wrt (<) (map fst w) \<and> (\<forall>kv \<in> set w. notice_item kv))"

text \<open>The messages and the notes stored for a sender and a receiver; none when no record is stored.\<close>

definition mailbox :: "ledger \<Rightarrow> string \<Rightarrow> string \<Rightarrow> bytes list \<times> string list" where
  "mailbox l sender receiver =
     (case pdc l (sender @ ''MSPCollection'', receiver) of
        Some (Doc old) \<Rightarrow> (mfrMessages old, mfrNotes old) | _ \<Rightarrow> ([], []))"

section \<open>Composite keys\<close>

lemma containsRune_single: "containsRune [c] s \<longleftrightarrow> c \<in> set s"
  by (induction s) auto

lemma valid_no_nul: "validateCompositeKeyAttribute s \<Longrightarrow> CHR 0x00 \<notin> set s"
  by (simp add: validateCompositeKeyAttribute_def minUnicodeRuneValue_def containsRune_single)

lemma valid_mn: "validateCompositeKeyAttribute ''mn''"
  by code_simp

lemma CreateCompositeKey_notice:
  "CreateCompositeKey ''mn'' [r, s] =
     (if validateCompositeKeyAttribute r
      then (if validateCompositeKeyAttribute s then Inr (noticeKey r s)
            else Inl (InvalidKeyAttribute s))
      else Inl (InvalidKeyAttribute r))"
  by (simp add: CreateCompositeKey_def valid_mn noticeKey_def)

lemma CreateCompositeKey_prefix:
  "CreateCompositeKey ''mn'' [r] =
     (if validateCompositeKeyAttribute r then Inr (noticePrefix r)
      else Inl (InvalidKeyAttribute r))"
  by (simp add: CreateCompositeKey_def valid_mn noticePrefix_def)

lemma components_cut:
  "CHR 0x00 \<notin> set a \<Longrightarrow> components cur (a @ CHR 0x00 # rest) = (cur @ a) # components [] rest"
  by (induction a arbitrary: cur) (auto simp: minUnicodeRuneValue_def)

lemma SplitCompositeKey_notice:
  assumes "CHR 0x00 \<notin> set r" and "CHR 0x00 \<notin> set s"
  shows "SplitCompositeKey (noticeKey r s) = Inr (''mn'', [r, s])"
proof -
  have "tl (noticeKey r s) = ''mn'' @ CHR 0x00 # r @ CHR 0x00 # s @ CHR 0x00 # []"
    by (simp add: noticeKey_def compositeKeyNamespace_def minUnicodeRuneValue_def)
  moreover have "CHR 0x00 \<notin> set ''mn''" by simp
  ultimately have "components [] (tl (noticeKey r s)) = [''mn'', r, s]"
    using assms components_cut [of "''mn''" "[]"] components_cut [of r "[]"] components_cut [of s "[]"]
    by simp
  then show ?thesis by (simp add: SplitCompositeKey_def)
qed

lemma cut_unique:
  "c \<notin> set xs \<Longrightarrow> c \<notin> set xs' \<Longrightarrow> xs @ c # ys = xs' @ c # ys' \<Longrightarrow> xs = xs' \<and> ys = ys'"
proof (induction xs arbitrary: xs')
  case Nil
  then show ?case by (cases xs') auto
next
  case (Cons a xs)
  then show ?case by (cases xs') auto
qed

lemma noticeKey_inj:
  assumes "noticeKey r s = noticeKey r' s'" and "CHR 0x00 \<notin> set r" and "CHR 0x00 \<notin> set r'"
  shows "r = r' \<and> s = s'"
proof -
  from assms(1) have "r @ CHR 0x00 # (s @ [CHR 0x00]) = r' @ CHR 0x00 # (s' @ [CHR 0x00])"
    by (simp add: noticeKey_def minUnicodeRuneValue_def)
  with assms(2,3) show ?thesis
    by (auto dest: cut_unique)
qed

lemma prefix_notice:
  assumes "CHR 0x00 \<notin> set r" and "CHR 0x00 \<notin> set r'"
  shows "prefix (noticePrefix r) (noticeKey r' s) \<longleftrightarrow> r = r'"
proof
  assume "prefix (noticePrefix r) (noticeKey r' s)"
  then have "prefix (r @ [CHR 0x00]) (r' @ CHR 0x00 # s @ [CHR 0x00])"
    by (simp add: noticePrefix_def noticeKey_def minUnicodeRuneValue_def)
  then obtain z where "r' @ CHR 0x00 # s @ [CHR 0x00] = r @ CHR 0x00 # z"
    by (auto simp: prefix_def)
  with assms show "r = r'"
    by (auto dest: cut_unique)
next
  assume "r = r'"
  then show "prefix (noticePrefix r) (noticeKey r' s)"
    by (simp add: noticePrefix_def noticeKey_def)
qed

section \<open>Writes to the world state\<close>

lemma map_of_putKV: "map_of (putKV k v w) = (map_of w)(k \<mapsto> v)"
  by (induction w) (auto simp: fun_eq_iff)

lemma keys_putKV: "fst ` set (putKV k v w) = insert k (fst ` set w)"
proof -
  have "dom (map_of (putKV k v w)) = insert k (dom (map_of w))"
    by (simp add: map_of_putKV)
  then show ?thesis
    by (simp add: dom_map_of_conv_image_fst)
qed

lemma set_putKV: "set (putKV k v w) \<subseteq> insert (k, v) (set w)"
  by (induction w) (auto split: if_splits)

lemma sorted_putKV:
  "sorted_wrt (<) (map fst w) \<Longrightarrow> sorted_wrt (<) (map fst (putKV k v w))"
proof (induction w)
  case Nil
  then show ?case by simp
next
  case (Cons a w)
  obtain k' v' where a: "a = (k', v')" by (cases a)
  show ?case
  proof (cases "k = k'")
    case True
    with Cons.prems a show ?thesis by simp
  next
    case False
    show ?thesis
    proof (cases "k < k'")
      case True
      with Cons.prems a \<open>k \<noteq> k'\<close> show ?thesis by (auto intro: less_trans)
    next
      case False
      with \<open>k \<noteq> k'\<close> have "k' < k" by simp
      moreover have "\<forall>x \<in> set (putKV k v w). fst x = k \<or> x \<in> set w"
        using set_putKV [of k v w] by auto
      ultimately show ?thesis
        using Cons a \<open>k \<noteq> k'\<close> False by auto
    qed
  qed
qed




section \<open>The calls of a successful send\<close>

lemma bytes_Equal_iff: "bytes_Equal x ''1'' \<longleftrightarrow> x = Some ''1''"
  by (cases x) (auto simp: bytes_Equal_def)

lemma CreateMessageNotice_success:
  assumes "CreateMessageNotice c s r lg = (Inr u, lg')"
  shows "validateCompositeKeyAttribute r \<and> validateCompositeKeyAttribute s
         \<and> lg' = lg @ GetStateOp (noticeKey r s) #
              (if map_of (world (state c)) (noticeKey r s) = Some ''1'' then []
               else [PutStateOp (noticeKey r s) ''1''])"
  using assms
  by (auto simp: CreateMessageNotice_def CreateCompositeKey_notice GetState_def PutState_def
        bytes_Equal_iff split: if_splits)

lemma send_step_success:
  assumes "CreateConfidentialMessageBySender_loop c p (r # rs) lg = (Inr u, lg')"
  shows "validateCompositeKeyAttribute r \<and> validateCompositeKeyAttribute (Sender p)
         \<and> pdc (state c) (Sender p @ ''MSPCollection'', r) \<noteq> Some Malformed
         \<and> CreateConfidentialMessageBySender_loop c p rs (lg @ deliver (state c) p r) = (Inr u, lg')"
proof -
  let ?col = "Sender p @ ''MSPCollection''"
  from assms obtain old lg1 where g: "GetPrivateData c ?col r lg = (Inr old, lg1)"
    by (cases "GetPrivateData c ?col r lg") (auto split: sum.splits)
  then have lg1: "lg1 = lg @ [GetPrivateOp ?col r]" and old: "old = pdc (state c) (?col, r)"
    by (auto simp: GetPrivateData_def split: if_splits)
  have nm: "old \<noteq> Some Malformed"
    using assms g by (auto simp: json_Unmarshal_def)
  let ?new = "appended (state c) p r"
  have new: "(case old of
                   Some old' \<Rightarrow>
                     (case json_Unmarshal old' of
                        Inl e \<Rightarrow> Inl (FailedUnmarshalJSON e)
                      | Inr oldMessage \<Rightarrow>
                          Inr (mfrMessages oldMessage @ [Message p],
                               mfrNotes oldMessage @ [Note p]))
                 | None \<Rightarrow> Inr ([Message p], [Note p])) = Inr (mfrMessages ?new, mfrNotes ?new)"
    using nm old by (auto simp: appended_def json_Unmarshal_def split: option.splits json.splits)
  have rec: "\<lparr>mfrSender = Sender p, mfrReceiver = r, mfrMessages = mfrMessages ?new,
              mfrNotes = mfrNotes ?new\<rparr> = ?new"
    by (simp add: appended_def)
  from assms g new rec obtain lg2 u2 where
    p: "PutPrivateData c ?col r (Doc ?new) lg1 = (Inr u2, lg2)"
    by (cases "PutPrivateData c ?col r (Doc ?new) lg1")
       (auto simp: json_Marshal_def Let_def split: sum.splits)
  then have lg2: "lg2 = lg1 @ [PutPrivateOp ?col r (Doc ?new)]"
    by (auto simp: PutPrivateData_def split: if_splits)
  have sel: "mfrSender ?new = Sender p" "mfrReceiver ?new = r"
    by (simp_all add: appended_def)
  from assms g new rec p sel obtain lg3 u3 where
    n: "CreateMessageNotice c (Sender p) r lg2 = (Inr u3, lg3)"
    and rest: "CreateConfidentialMessageBySender_loop c p rs lg3 = (Inr u, lg')"
    by (cases "CreateMessageNotice c (Sender p) r lg2")
       (auto simp: json_Marshal_def Let_def split: sum.splits)
  from CreateMessageNotice_success [OF n] lg1 lg2 have "lg3 = lg @ deliver (state c) p r"
    and "validateCompositeKeyAttribute r" and "validateCompositeKeyAttribute (Sender p)"
    by (auto simp: deliver_def)
  with rest nm old show ?thesis by simp
qed

lemma send_loop_success:
  assumes "CreateConfidentialMessageBySender_loop c p rs lg = (Inr u, lg')"
  shows "lg' = lg @ concat (map (deliver (state c) p) rs)
         \<and> (\<forall>r \<in> set rs. validateCompositeKeyAttribute r \<and> validateCompositeKeyAttribute (Sender p)
                \<and> pdc (state c) (Sender p @ ''MSPCollection'', r) \<noteq> Some Malformed)"
  using assms
proof (induction rs arbitrary: lg)
  case Nil
  then show ?case by simp
next
  case (Cons r rs)
  from send_step_success [OF Cons.prems] Cons.IH [of "lg @ deliver (state c) p r"]
  show ?case by simp
qed



lemma send_success:
  assumes "CreateConfidentialMessageBySender c lg = (Inr u, lg')"
  shows "\<exists>p. request c = Some p \<and> Sender p \<noteq> [] \<and> Receivers p \<noteq> [] \<and> Message p \<noteq> []
           \<and> Note p \<noteq> [] \<and> clientMSPID c = Some (Sender p @ ''MSP'')
           \<and> CreateConfidentialMessageBySender_loop c p (Receivers p) lg = (Inr u, lg')"
  using assms
  by (auto simp: CreateConfidentialMessageBySender_def request_def json_Unmarshal_def
        split: option.splits json.splits if_splits sum.splits)

section \<open>Committing a write set\<close>

lemma commit_Nil: "commit l [] = l"
  by (simp add: commit_def)

lemma commit_snoc: "commit l (lg @ [a]) = apply_access a (commit l lg)"
  by (simp add: commit_def)

lemma commit_pdc:
  assumes "\<forall>v'. PutPrivateOp col k v' \<in> set lg \<longrightarrow> v' = v"
  shows "pdc (commit l lg) (col, k) =
           (if PutPrivateOp col k v \<in> set lg then Some v else pdc l (col, k))"
  using assms
proof (induction lg rule: rev_induct)
  case Nil
  show ?case by (simp add: commit_Nil)
next
  case (snoc a lg)
  have "\<forall>v'. PutPrivateOp col k v' \<in> set lg \<longrightarrow> v' = v"
    using snoc.prems by simp
  note IH = snoc.IH [OF this]
  show ?case
  proof (cases a)
    case (PutPrivateOp c' k' v')
    show ?thesis
    proof (cases "c' = col \<and> k' = k")
      case True
      have "PutPrivateOp col k v' \<in> set (lg @ [a])"
        using True PutPrivateOp by simp
      with snoc.prems have "v' = v" by blast
      with True PutPrivateOp show ?thesis by (simp add: commit_snoc)
    next
      case False
      with PutPrivateOp IH show ?thesis by (auto simp add: commit_snoc)
    qed
  qed (simp_all add: commit_snoc IH)
qed

lemma commit_world_map:
  assumes "\<forall>v'. PutStateOp k v' \<in> set lg \<longrightarrow> v' = v"
  shows "map_of (world (commit l lg)) k =
           (if PutStateOp k v \<in> set lg then Some v else map_of (world l) k)"
  using assms
proof (induction lg rule: rev_induct)
  case Nil
  show ?case by (simp add: commit_Nil)
next
  case (snoc a lg)
  have "\<forall>v'. PutStateOp k v' \<in> set lg \<longrightarrow> v' = v"
    using snoc.prems by simp
  note IH = snoc.IH [OF this]
  show ?case
  proof (cases a)
    case (PutStateOp k' v')
    show ?thesis
    proof (cases "k' = k")
      case True
      have "PutStateOp k v' \<in> set (lg @ [a])"
        using True PutStateOp by simp
      with snoc.prems have "v' = v" by blast
      with True PutStateOp show ?thesis by (simp add: commit_snoc map_of_putKV)
    next
      case False
      with PutStateOp IH show ?thesis by (auto simp add: commit_snoc map_of_putKV)
    qed
  qed (simp_all add: commit_snoc IH)
qed

lemma commit_world_keys:
  "fst ` set (world (commit l lg)) = fst ` set (world l) \<union> {k. \<exists>v. PutStateOp k v \<in> set lg}"
proof (induction lg rule: rev_induct)
  case Nil
  then show ?case by (simp add: commit_Nil)
next
  case (snoc a lg)
  then show ?case by (cases a) (auto simp: commit_snoc keys_putKV)
qed

lemma wf_putKV:
  assumes "wf_world w" and "notice_item (k, v)"
  shows "wf_world (putKV k v w)"
  using assms set_putKV [of k v w] sorted_putKV [of w k v]
  by (auto simp: wf_world_def)

lemma commit_world_wf:
  assumes "wf_world (world l)" and "\<forall>k v. PutStateOp k v \<in> set lg \<longrightarrow> notice_item (k, v)"
  shows "wf_world (world (commit l lg))"
  using assms(2)
proof (induction lg rule: rev_induct)
  case Nil
  then show ?case using assms(1) by (simp add: commit_Nil)
next
  case (snoc a lg)
  then show ?case by (cases a) (auto simp: commit_snoc wf_putKV)
qed

lemma commit_pdc_unchanged:
  assumes "\<forall>a \<in> set lg. \<forall>col k v. a \<noteq> PutPrivateOp col k v"
  shows "pdc (commit l lg) = pdc l"
  using assms
proof (induction lg rule: rev_induct)
  case Nil
  then show ?case by (simp add: commit_Nil)
next
  case (snoc a lg)
  then show ?case by (cases a) (auto simp: commit_snoc)
qed



section \<open>The calls of a scan of notices\<close>

lemma noticeKey_not_Nil: "noticeKey r s \<noteq> []"
  by (simp add: noticeKey_def compositeKeyNamespace_def)

lemma read_step:
  assumes "validateCompositeKeyAttribute receiver" and "validateCompositeKeyAttribute s"
  shows "ReadMessageNotice_loop c receiver ((noticeKey receiver s, v) # rs) senders lg =
     (if faulty c (NextOp (noticeKey receiver s)) then (Inl StubFailure, lg)
      else if v = ''1'' then
        (if faulty c (PutStateOp (noticeKey receiver s) ''0'')
         then (Inl (FailedPutValue StubFailure), lg)
         else ReadMessageNotice_loop c receiver rs (senders @ [s])
                (lg @ [PutStateOp (noticeKey receiver s) ''0'']))
      else ReadMessageNotice_loop c receiver rs (senders @ [receiver]) lg)"
  using assms
  by (simp add: SplitCompositeKey_notice valid_no_nul index_def CreateCompositeKey_notice
        PutState_def noticeKey_not_Nil bytes_Equal_def)




lemma read_loop_unfold:
  assumes "validateCompositeKeyAttribute receiver" and "validateCompositeKeyAttribute (fst sv)"
  shows "ReadMessageNotice_loop c receiver (map (entry receiver) (sv # svs)) senders lg =
     (if faulty c (NextOp (noticeKey receiver (fst sv))) then (Inl StubFailure, lg)
      else if snd sv = ''1'' then
        (if faulty c (PutStateOp (noticeKey receiver (fst sv)) ''0'')
         then (Inl (FailedPutValue StubFailure), lg)
         else ReadMessageNotice_loop c receiver (map (entry receiver) svs) (senders @ [fst sv])
                (lg @ [PutStateOp (noticeKey receiver (fst sv)) ''0'']))
      else ReadMessageNotice_loop c receiver (map (entry receiver) svs) (senders @ [receiver]) lg)"
proof -
  have "map (entry receiver) (sv # svs) = (noticeKey receiver (fst sv), snd sv) # map (entry receiver) svs"
    by (simp add: entry_def)
  then show ?thesis
    using read_step [OF assms] by (simp only:)
qed

lemma read_loop_success:
  assumes "ReadMessageNotice_loop c receiver (map (entry receiver) svs) senders lg = (Inr sd, lg')"
    and "validateCompositeKeyAttribute receiver"
    and "\<forall>sv \<in> set svs. validateCompositeKeyAttribute (fst sv)"
  shows "sd = senders @ map (reported receiver) svs
         \<and> lg' = lg @ concat (map (drained receiver) svs)"
  using assms
proof (induction svs arbitrary: senders lg)
  case Nil
  then show ?case by simp
next
  case (Cons sv svs)
  have vs: "validateCompositeKeyAttribute (fst sv)"
    using Cons.prems(3) by simp
  have rest: "\<forall>sv \<in> set svs. validateCompositeKeyAttribute (fst sv)"
    using Cons.prems(3) by simp
  note step = read_loop_unfold [OF Cons.prems(2) vs, of c svs senders lg]
  show ?case
  proof (cases "snd sv = ''1''")
    case True
    with Cons.prems(1) step
    have "ReadMessageNotice_loop c receiver (map (entry receiver) svs) (senders @ [fst sv])
            (lg @ [PutStateOp (noticeKey receiver (fst sv)) ''0'']) = (Inr sd, lg')"
      by (simp del: ReadMessageNotice_loop.simps list.map split: if_splits)
    from Cons.IH [OF this Cons.prems(2) rest] True show ?thesis
      by (simp add: reported_def drained_def)
  next
    case False
    with Cons.prems(1) step
    have "ReadMessageNotice_loop c receiver (map (entry receiver) svs) (senders @ [receiver]) lg
            = (Inr sd, lg')"
      by (simp del: ReadMessageNotice_loop.simps list.map split: if_splits)
    from Cons.IH [OF this Cons.prems(2) rest] False show ?thesis
      by (simp add: reported_def drained_def)
  qed
qed

lemma read_loop_total:
  assumes "\<forall>a. \<not> faulty c a"
    and "validateCompositeKeyAttribute receiver"
    and "\<forall>sv \<in> set svs. validateCompositeKeyAttribute (fst sv)"
  shows "ReadMessageNotice_loop c receiver (map (entry receiver) svs) senders lg =
           (Inr (senders @ map (reported receiver) svs), lg @ concat (map (drained receiver) svs))"
  using assms(3)
proof (induction svs arbitrary: senders lg)
  case Nil
  then show ?case by simp
next
  case (Cons sv svs)
  have vs: "validateCompositeKeyAttribute (fst sv)"
    using Cons.prems by simp
  have rest: "\<forall>sv \<in> set svs. validateCompositeKeyAttribute (fst sv)"
    using Cons.prems by simp
  note step = read_loop_unfold [OF assms(2) vs, of c svs senders lg]
  show ?case
    unfolding step using Cons.IH [OF rest] assms(1)
    by (simp add: reported_def drained_def)
qed

lemma scan_entries:
  assumes "\<forall>kv \<in> set w. notice_item kv" and "validateCompositeKeyAttribute receiver"
  shows "\<exists>svs. filter (\<lambda>item. prefix (noticePrefix receiver) (fst item)) w = map (entry receiver) svs
           \<and> (\<forall>sv \<in> set svs. validateCompositeKeyAttribute (fst sv)
                 \<and> (noticeKey receiver (fst sv), snd sv) \<in> set w)"
  using assms(1)
proof (induction w)
  case Nil
  then show ?case by simp
next
  case (Cons kv w)
  then obtain svs where svs:
    "filter (\<lambda>item. prefix (noticePrefix receiver) (fst item)) w = map (entry receiver) svs"
    "\<forall>sv \<in> set svs. validateCompositeKeyAttribute (fst sv)
        \<and> (noticeKey receiver (fst sv), snd sv) \<in> set w"
    by auto
  from Cons.prems obtain r s where rs: "validateCompositeKeyAttribute r"
    "validateCompositeKeyAttribute s" "fst kv = noticeKey r s"
    by (auto simp: notice_item_def)
  show ?case
  proof (cases "prefix (noticePrefix receiver) (fst kv)")
    case True
    with rs assms(2) have "r = receiver"
      by (simp add: prefix_notice valid_no_nul)
    with rs have "kv = entry receiver (s, snd kv)"
      by (simp add: entry_def prod_eq_iff)
    with True svs rs have
      "filter (\<lambda>item. prefix (noticePrefix receiver) (fst item)) (kv # w)
         = map (entry receiver) ((s, snd kv) # svs)"
      by simp
    moreover have "\<forall>sv \<in> set ((s, snd kv) # svs). validateCompositeKeyAttribute (fst sv)
        \<and> (noticeKey receiver (fst sv), snd sv) \<in> set (kv # w)"
      using svs(2) rs \<open>r = receiver\<close> by (auto simp: prod_eq_iff)
    ultimately show ?thesis by blast
  next
    case False
    with svs show ?thesis by auto
  qed
qed


section \<open>The effect of a transaction on the ledger\<close>

lemma deliver_put_state:
  "PutStateOp k v \<in> set (concat (map (deliver l p) rs)) \<longleftrightarrow>
     v = ''1'' \<and> (\<exists>r \<in> set rs. k = noticeKey r (Sender p) \<and> map_of (world l) k \<noteq> Some ''1'')"
  by (auto simp: deliver_def)

lemma deliver_put_private:
  "PutPrivateOp col k v \<in> set (concat (map (deliver l p) rs)) \<longleftrightarrow>
     col = Sender p @ ''MSPCollection'' \<and> k \<in> set rs \<and> v = Doc (appended l p k)"
  by (auto simp: deliver_def)

lemma request_state [simp]: "request (c\<lparr>state := l\<rparr>) = request c"
  by (simp add: request_def)

lemma not_succeeds: "\<not> succeeds l tx \<Longrightarrow> submit l tx = l"
  by (auto simp: succeeds_def submit_def split: sum.splits prod.splits)

lemma succeeds_send:
  assumes "succeeds l (c, SendCall)"
  shows "\<exists>p. request c = Some p \<and> sent l (c, SendCall) = [p]
           \<and> invoke (c\<lparr>state := l\<rparr>) SendCall =
               (Inr NoResponse, concat (map (deliver l p) (Receivers p)))
           \<and> submit l (c, SendCall) = commit l (concat (map (deliver l p) (Receivers p)))
           \<and> validateCompositeKeyAttribute (Sender p)
           \<and> (\<forall>r \<in> set (Receivers p). validateCompositeKeyAttribute r)
           \<and> Receivers p \<noteq> []"
proof -
  obtain res lg where r: "CreateConfidentialMessageBySender (c\<lparr>state := l\<rparr>) [] = (res, lg)"
    by (cases "CreateConfidentialMessageBySender (c\<lparr>state := l\<rparr>) []")
  with assms obtain u where u: "res = Inr u"
    by (cases res) (auto simp: succeeds_def lift_response_def)
  from send_success [OF r [unfolded u]] obtain p where p: "request c = Some p"
    "Receivers p \<noteq> []"
    "CreateConfidentialMessageBySender_loop (c\<lparr>state := l\<rparr>) p (Receivers p) [] = (Inr u, lg)"
    by auto
  from send_loop_success [OF p(3)] have lg: "lg = concat (map (deliver l p) (Receivers p))"
    and v: "\<forall>r \<in> set (Receivers p). validateCompositeKeyAttribute r
              \<and> validateCompositeKeyAttribute (Sender p)"
    by simp_all
  from p(2) obtain r0 where "r0 \<in> set (Receivers p)" by (cases "Receivers p") auto
  with v have vs: "validateCompositeKeyAttribute (Sender p)" by blast
  have "submit l (c, SendCall) = commit l lg"
    using r u by (simp add: submit_def lift_response_def)
  moreover have "invoke (c\<lparr>state := l\<rparr>) SendCall = (Inr NoResponse, lg)"
    using r u by (simp add: lift_response_def)
  moreover have "sent l (c, SendCall) = [p]"
    using assms p(1) by (simp add: sent_def)
  ultimately show ?thesis using p(1,2) lg v vs by blast
qed

lemma send_pdc:
  assumes "succeeds l (c, SendCall)" and "request c = Some p"
  shows "pdc (submit l (c, SendCall)) (col, k) =
           (if col = Sender p @ ''MSPCollection'' \<and> k \<in> set (Receivers p)
            then Some (Doc (appended l p k)) else pdc l (col, k))"
proof -
  from succeeds_send [OF assms(1)] assms(2)
  have s: "submit l (c, SendCall) = commit l (concat (map (deliver l p) (Receivers p)))"
    by auto
  have "\<forall>v'. PutPrivateOp col k v' \<in> set (concat (map (deliver l p) (Receivers p)))
          \<longrightarrow> v' = Doc (appended l p k)"
    unfolding deliver_put_private by blast
  from commit_pdc [OF this] show ?thesis
    unfolding s deliver_put_private by simp
qed

lemma send_world_map:
  assumes "succeeds l (c, SendCall)" and "request c = Some p"
  shows "map_of (world (submit l (c, SendCall))) k =
           (if \<exists>r \<in> set (Receivers p). k = noticeKey r (Sender p) then Some ''1''
            else map_of (world l) k)"
proof -
  from succeeds_send [OF assms(1)] assms(2)
  have s: "submit l (c, SendCall) = commit l (concat (map (deliver l p) (Receivers p)))"
    by auto
  have "\<forall>v'. PutStateOp k v' \<in> set (concat (map (deliver l p) (Receivers p))) \<longrightarrow> v' = ''1''"
    unfolding deliver_put_state by blast
  from commit_world_map [OF this] show ?thesis
    unfolding s deliver_put_state by auto
qed

lemma send_wf:
  assumes "succeeds l (c, SendCall)" and "wf_world (world l)"
  shows "wf_world (world (submit l (c, SendCall)))"
proof -
  from succeeds_send [OF assms(1)] obtain p where
    s: "submit l (c, SendCall) = commit l (concat (map (deliver l p) (Receivers p)))"
    and v: "validateCompositeKeyAttribute (Sender p)"
      "\<forall>r \<in> set (Receivers p). validateCompositeKeyAttribute r"
    by auto
  have "\<forall>k v. PutStateOp k v \<in> set (concat (map (deliver l p) (Receivers p)))
          \<longrightarrow> notice_item (k, v)"
    using v unfolding deliver_put_state by (auto simp: notice_item_def)
  from commit_world_wf [OF assms(2) this] show ?thesis
    unfolding s .
qed

lemma read_messages_unchanged: "submit l (c, ReadMessagesCall a b) = l"
proof -
  have "snd (ReadConfidentialMessage c' a b []) = []
      \<or> snd (ReadConfidentialMessage c' a b []) = [GetPrivateOp (a @ ''MSPCollection'') b]" for c'
    by (auto simp: ReadConfidentialMessage_def GetPrivateData_def
          split: option.splits sum.splits if_splits)
  from this [of "c\<lparr>state := l\<rparr>"]
  have "commit l (snd (ReadConfidentialMessage (c\<lparr>state := l\<rparr>) a b [])) = l"
    by (auto simp: commit_def)
  then show ?thesis
    by (auto simp: submit_def lift_response_def split: prod.splits sum.splits)
qed

lemma succeeds_read_notices:
  assumes "succeeds l (c, ReadNoticesCall r)" and "wf_world (world l)"
  shows "\<exists>svs. validateCompositeKeyAttribute r
           \<and> filter (\<lambda>item. prefix (noticePrefix r) (fst item)) (world l) = map (entry r) svs
           \<and> (\<forall>sv \<in> set svs. validateCompositeKeyAttribute (fst sv)
                  \<and> (noticeKey r (fst sv), snd sv) \<in> set (world l))
           \<and> invoke (c\<lparr>state := l\<rparr>) (ReadNoticesCall r) =
               (Inr (SendersResponse (map (reported r) svs)),
                RangeOp (noticePrefix r) # concat (map (drained r) svs))"
proof -
  let ?c = "c\<lparr>state := l\<rparr>"
  obtain res lg where r: "ReadMessageNotice ?c r [] = (res, lg)"
    by (cases "ReadMessageNotice ?c r []")
  with assms(1) obtain sd where sd: "res = Inr sd"
    by (cases res) (auto simp: succeeds_def lift_response_def)
  have vr: "validateCompositeKeyAttribute r"
    using r sd
    by (auto simp: ReadMessageNotice_def GetStateByPartialCompositeKey_def
          CreateCompositeKey_prefix split: if_splits)
  from assms(2) have "\<forall>kv \<in> set (world l). notice_item kv"
    by (simp add: wf_world_def)
  from scan_entries [OF this vr] obtain svs where svs:
    "filter (\<lambda>item. prefix (noticePrefix r) (fst item)) (world l) = map (entry r) svs"
    "\<forall>sv \<in> set svs. validateCompositeKeyAttribute (fst sv)
        \<and> (noticeKey r (fst sv), snd sv) \<in> set (world l)"
    by blast
  have loop: "ReadMessageNotice_loop ?c r (map (entry r) svs) [] [RangeOp (noticePrefix r)]
                = (Inr sd, lg)"
    using r sd vr svs(1)
    by (auto simp: ReadMessageNotice_def GetStateByPartialCompositeKey_def
          CreateCompositeKey_prefix split: if_splits)
  from svs(2) have "\<forall>sv \<in> set svs. validateCompositeKeyAttribute (fst sv)" by blast
  from read_loop_success [OF loop vr this]
  have "invoke ?c (ReadNoticesCall r) =
               (Inr (SendersResponse (map (reported r) svs)),
                RangeOp (noticePrefix r) # concat (map (drained r) svs))"
    using r sd by (simp add: lift_response_def)
  with vr svs show ?thesis by blast
qed

lemma drained_put_state:
  "PutStateOp k v \<in> set (RangeOp q # concat (map (drained r) svs)) \<longleftrightarrow>
     v = ''0'' \<and> (\<exists>sv \<in> set svs. snd sv = ''1'' \<and> k = noticeKey r (fst sv))"
  by (auto simp: drained_def)

lemma read_notices_effect:
  assumes "succeeds l (c, ReadNoticesCall r)" and "wf_world (world l)"
  shows "wf_world (world (submit l (c, ReadNoticesCall r)))
         \<and> fst ` set (world (submit l (c, ReadNoticesCall r))) = fst ` set (world l)
         \<and> pdc (submit l (c, ReadNoticesCall r)) = pdc l"
proof -
  from succeeds_read_notices [OF assms] obtain svs where
    vr: "validateCompositeKeyAttribute r"
    and svs: "\<forall>sv \<in> set svs. validateCompositeKeyAttribute (fst sv)
                  \<and> (noticeKey r (fst sv), snd sv) \<in> set (world l)"
    and inv: "invoke (c\<lparr>state := l\<rparr>) (ReadNoticesCall r) =
               (Inr (SendersResponse (map (reported r) svs)),
                RangeOp (noticePrefix r) # concat (map (drained r) svs))"
    by blast
  let ?lg = "RangeOp (noticePrefix r) # concat (map (drained r) svs)"
  have s: "submit l (c, ReadNoticesCall r) = commit l ?lg"
    using inv by (simp add: submit_def)
  have "\<forall>k v. PutStateOp k v \<in> set ?lg \<longrightarrow> notice_item (k, v)"
    using vr svs unfolding drained_put_state by (auto simp: notice_item_def)
  from commit_world_wf [OF assms(2) this] have 1: "wf_world (world (commit l ?lg))" .
  have "{k. \<exists>v. PutStateOp k v \<in> set ?lg} \<subseteq> fst ` set (world l)"
    using svs unfolding drained_put_state by force
  then have 2: "fst ` set (world (commit l ?lg)) = fst ` set (world l)"
    unfolding commit_world_keys by blast
  have "\<forall>a \<in> set ?lg. \<forall>col k v. a \<noteq> PutPrivateOp col k v"
    by (auto simp: drained_def)
  from commit_pdc_unchanged [OF this] have 3: "pdc (commit l ?lg) = pdc l" .
  from 1 2 3 show ?thesis unfolding s by simp
qed



lemma notice_exists_unchanged: "submit l (c, NoticeExistsCall k) = l"
proof -
  have "snd (MessageNoticeExists c' k []) = [] \<or> snd (MessageNoticeExists c' k []) = [GetStateOp k]"
    for c'
    by (auto simp: MessageNoticeExists_def GetState_def)
  from this [of "c\<lparr>state := l\<rparr>"]
  have "commit l (snd (MessageNoticeExists (c\<lparr>state := l\<rparr>) k [])) = l"
    by (auto simp: commit_def)
  then show ?thesis
    by (auto simp: submit_def lift_response_def split: prod.splits sum.splits)
qed

lemma succeeds_create_notice:
  assumes "succeeds l (c, CreateNoticeCall s r)"
  shows "validateCompositeKeyAttribute r \<and> validateCompositeKeyAttribute s
         \<and> submit l (c, CreateNoticeCall s r) =
             commit l (GetStateOp (noticeKey r s) #
                        (if map_of (world l) (noticeKey r s) = Some ''1'' then []
                         else [PutStateOp (noticeKey r s) ''1'']))"
proof -
  obtain res lg where r: "CreateMessageNotice (c\<lparr>state := l\<rparr>) s r [] = (res, lg)"
    by (cases "CreateMessageNotice (c\<lparr>state := l\<rparr>) s r []")
  with assms obtain u where u: "res = Inr u"
    by (cases res) (auto simp: succeeds_def lift_response_def)
  from CreateMessageNotice_success [OF r [unfolded u]]
  have "validateCompositeKeyAttribute r" and "validateCompositeKeyAttribute s"
    and "lg = GetStateOp (noticeKey r s) #
              (if map_of (world l) (noticeKey r s) = Some ''1'' then []
               else [PutStateOp (noticeKey r s) ''1''])"
    by simp_all
  moreover have "submit l (c, CreateNoticeCall s r) = commit l lg"
    using r u by (simp add: submit_def lift_response_def)
  ultimately show ?thesis by simp
qed

lemma create_notice_effect:
  assumes "succeeds l (c, CreateNoticeCall s r)" and "wf_world (world l)"
  shows "wf_world (world (submit l (c, CreateNoticeCall s r)))
         \<and> pdc (submit l (c, CreateNoticeCall s r)) = pdc l
         \<and> map_of (world (submit l (c, CreateNoticeCall s r))) k =
             (if k = noticeKey r s then Some ''1'' else map_of (world l) k)"
proof -
  from succeeds_create_notice [OF assms(1)]
  have v: "notice_item (noticeKey r s, ''1'')"
    and sub: "submit l (c, CreateNoticeCall s r) =
             commit l (GetStateOp (noticeKey r s) #
                        (if map_of (world l) (noticeKey r s) = Some ''1'' then []
                         else [PutStateOp (noticeKey r s) ''1'']))"
    by (auto simp: notice_item_def)
  show ?thesis
  proof (cases "map_of (world l) (noticeKey r s) = Some ''1''")
    case True
    with sub have "submit l (c, CreateNoticeCall s r) = l"
      by (simp add: commit_def)
    with assms(2) True show ?thesis by simp
  next
    case False
    with sub have w: "world (submit l (c, CreateNoticeCall s r)) = putKV (noticeKey r s) ''1'' (world l)"
      and p: "pdc (submit l (c, CreateNoticeCall s r)) = pdc l"
      by (simp_all add: commit_def)
    from wf_putKV [OF assms(2) v] w p show ?thesis
      by (simp add: map_of_putKV)
  qed
qed

section \<open>Sequences of transactions\<close>

lemma run_Nil: "run l [] = l"
  by (simp add: run_def)

lemma run_Cons: "run l (tx # txs) = run (submit l tx) txs"
  by (simp add: run_def)

lemma run_append: "run l (txs @ txs') = run (run l txs) txs'"
  by (simp add: run_def)

lemma successful_sends_append:
  "successful_sends l (txs @ txs') = successful_sends l txs @ successful_sends (run l txs) txs'"
  by (induction txs arbitrary: l) (simp_all add: run_Nil run_Cons)

lemma sent_cases:
  "sent l tx = [] \<or> (\<exists>c p. tx = (c, SendCall) \<and> succeeds l tx \<and> request c = Some p \<and> sent l tx = [p])"
  by (cases tx) (auto simp: sent_def split: option.splits)



lemma sent_Nil_submit:
  assumes "sent l tx = []" and "wf_world (world l)"
  shows "wf_world (world (submit l tx))
         \<and> fst ` set (world (submit l tx)) =
             fst ` set (world l) \<union> {noticeKey r s | s r. (s, r) \<in> set (noticed l tx)}
         \<and> pdc (submit l tx) = pdc l"
proof (cases "succeeds l tx")
  case False
  then have "noticed l tx = []" by (auto simp: noticed_def split: call.splits)
  with False assms(2) show ?thesis by (simp add: not_succeeds)
next
  case True
  obtain c cl where tx: "tx = (c, cl)" by (cases tx)
  show ?thesis
  proof (cases cl)
    case SendCall
    with True tx succeeds_send [of l c] assms(1) show ?thesis by auto
  next
    case (ReadNoticesCall r)
    with True tx read_notices_effect [of l c r] assms(2) show ?thesis
      by (simp add: noticed_def)
  next
    case (ReadMessagesCall a b)
    with tx assms(2) show ?thesis by (simp add: read_messages_unchanged noticed_def)
  next
    case (CreateNoticeCall s r)
    note eff = create_notice_effect [OF True [unfolded tx CreateNoticeCall] assms(2)]
    have "dom (map_of (world (submit l (c, CreateNoticeCall s r)))) =
            insert (noticeKey r s) (dom (map_of (world l)))"
      using eff by (auto simp: dom_def split: if_splits)
    then have "fst ` set (world (submit l (c, CreateNoticeCall s r))) =
            insert (noticeKey r s) (fst ` set (world l))"
      by (simp add: dom_map_of_conv_image_fst)
    with eff [of undefined] True tx CreateNoticeCall show ?thesis
      by (simp add: noticed_def)
  next
    case (NoticeExistsCall k)
    with tx assms(2) show ?thesis by (simp add: notice_exists_unchanged noticed_def)
  qed
qed

lemma sent_valid:
  assumes "p \<in> set (sent l tx)"
  shows "validateCompositeKeyAttribute (Sender p)
         \<and> (\<forall>r \<in> set (Receivers p). validateCompositeKeyAttribute r)"
proof -
  from assms sent_cases [of l tx] obtain c where
    "tx = (c, SendCall)" "succeeds l tx" "sent l tx = [p]"
    by auto
  with succeeds_send [of l c] show ?thesis by auto
qed

lemma submit_wf:
  assumes "wf_world (world l)"
  shows "wf_world (world (submit l tx))"
proof (cases "sent l tx = []")
  case True
  with assms show ?thesis by (simp add: sent_Nil_submit)
next
  case False
  with sent_cases [of l tx] obtain c where "tx = (c, SendCall)" "succeeds l tx" by auto
  with assms show ?thesis by (simp add: send_wf)
qed


lemma run_wf:
  assumes "wf_world (world l)"
  shows "wf_world (world (run l txs))"
  using assms
  by (induction txs arbitrary: l) (simp_all add: run_Nil run_Cons submit_wf)





lemma wf_empty: "wf_world (world empty_ledger)"
  by (simp add: wf_world_def empty_ledger_def)

lemma submit_mailbox:
  assumes "wf_world (world l)"
  shows "pdc (submit l tx) (sender @ ''MSPCollection'', receiver) =
     (case filter (addressed sender receiver) (sent l tx) of
        [] \<Rightarrow> pdc l (sender @ ''MSPCollection'', receiver)
      | p # ps \<Rightarrow> Some (Doc (appended l p receiver)))"
proof (cases "sent l tx = []")
  case True
  with sent_Nil_submit [OF True assms] show ?thesis by simp
next
  case False
  with sent_cases [of l tx] obtain c p where tx: "tx = (c, SendCall)" "succeeds l tx"
    "request c = Some p" "sent l tx = [p]" by auto
  from send_pdc [OF tx(2) [unfolded tx(1)] tx(3), of "sender @ ''MSPCollection''" receiver]
  show ?thesis
    using tx by (auto simp: addressed_def)
qed

lemma run_mailbox:
  assumes "wf_world (world l)"
  shows "pdc (run l txs) (sender @ ''MSPCollection'', receiver) =
     (let ds = filter (addressed sender receiver) (successful_sends l txs) in
      if ds = [] then pdc l (sender @ ''MSPCollection'', receiver)
      else Some (Doc \<lparr>mfrSender = sender, mfrReceiver = receiver,
                       mfrMessages = fst (mailbox l sender receiver) @ map Message ds,
                       mfrNotes = snd (mailbox l sender receiver) @ map Note ds\<rparr>))"
  using assms
proof (induction txs arbitrary: l)
  case Nil
  then show ?case by (simp add: run_Nil)
next
  case (Cons tx txs)
  let ?l1 = "submit l tx"
  let ?k = "(sender @ ''MSPCollection'', receiver)"
  let ?f = "filter (addressed sender receiver)"
  note IH = Cons.IH [OF submit_wf [OF Cons.prems], of tx]
  note step = submit_mailbox [OF Cons.prems, of tx sender receiver]
  show ?case
  proof (cases "?f (sent l tx)")
    case Nil
    with step have "pdc ?l1 ?k = pdc l ?k" by simp
    then have "mailbox ?l1 sender receiver = mailbox l sender receiver"
      by (simp add: mailbox_def)
    with IH Nil \<open>pdc ?l1 ?k = pdc l ?k\<close> show ?thesis
      by (simp add: run_Cons Let_def)
  next
    case (Cons p ps)
    from sent_cases [of l tx] Cons have single: "sent l tx = [p]" and ad: "addressed sender receiver p"
      by (auto split: if_splits)
    then have ps: "?f (sent l tx) = [p]" by simp
    from step ps have st: "pdc ?l1 ?k = Some (Doc (appended l p receiver))" by simp
    from ad have sp: "Sender p = sender" by (simp add: addressed_def)
    have mb: "mailbox ?l1 sender receiver =
        (fst (mailbox l sender receiver) @ [Message p], snd (mailbox l sender receiver) @ [Note p])"
      using st sp by (auto simp: mailbox_def appended_def split: option.splits json.splits)
    have ap: "appended l p receiver =
        \<lparr>mfrSender = sender, mfrReceiver = receiver,
         mfrMessages = fst (mailbox l sender receiver) @ [Message p],
         mfrNotes = snd (mailbox l sender receiver) @ [Note p]\<rparr>"
      using sp by (auto simp: mailbox_def appended_def split: option.splits json.splits)
    show ?thesis
      using IH ps st mb ap by (simp add: run_Cons Let_def)
  qed
qed


section \<open>Reading a mailbox by the receiver\<close>

lemma read_mailbox_eval:
  assumes "clientMSPID c = Some (receiver @ ''MSP'')"
    and "\<not> faulty c (GetPrivateOp (sender @ ''MSPCollection'') receiver)"
  shows "ReadConfidentialMessage c sender receiver lg =
           (case pdc (state c) (sender @ ''MSPCollection'', receiver) of
              None \<Rightarrow> Inl (NoMessage receiver (sender @ ''MSPCollection''))
            | Some Malformed \<Rightarrow> Inl (FailedUnmarshalJSON JSONSyntaxError)
            | Some (Doc m) \<Rightarrow> Inr \<lparr>retMessages = mfrMessages m, retNotes = mfrNotes m\<rparr>,
            lg @ [GetPrivateOp (sender @ ''MSPCollection'') receiver])"
proof -
  have conv: "map string_of_bytes xs = xs" for xs
    by (induction xs) (simp_all add: string_of_bytes_def)
  show ?thesis
    using assms
    by (simp add: ReadConfidentialMessage_def GetPrivateData_def json_Unmarshal_def conv
          split: option.splits json.splits)
qed

lemma mailbox_empty: "mailbox empty_ledger sender receiver = ([], [])"
  by (simp add: mailbox_def empty_ledger_def)



section \<open>An unread notice until the receiver reads\<close>

lemma read_notices_other_key:
  assumes "wf_world (world l)" and "validateCompositeKeyAttribute receiver" and "r \<noteq> receiver"
  shows "map_of (world (submit l (c, ReadNoticesCall r))) (noticeKey receiver sender) =
           map_of (world l) (noticeKey receiver sender)"
proof (cases "succeeds l (c, ReadNoticesCall r)")
  case False
  then show ?thesis by (simp add: not_succeeds)
next
  case True
  from succeeds_read_notices [OF True assms(1)] obtain svs where
    vr: "validateCompositeKeyAttribute r"
    and inv: "invoke (c\<lparr>state := l\<rparr>) (ReadNoticesCall r) =
               (Inr (SendersResponse (map (reported r) svs)),
                RangeOp (noticePrefix r) # concat (map (drained r) svs))"
    by blast
  let ?lg = "RangeOp (noticePrefix r) # concat (map (drained r) svs)"
  let ?k = "noticeKey receiver sender"
  have s: "submit l (c, ReadNoticesCall r) = commit l ?lg"
    using inv by (simp add: submit_def)
  have none: "PutStateOp ?k v \<notin> set ?lg" for v
  proof
    assume "PutStateOp ?k v \<in> set ?lg"
    then obtain sv where "?k = noticeKey r (fst sv)"
      unfolding drained_put_state by auto
    from noticeKey_inj [OF this valid_no_nul [OF assms(2)] valid_no_nul [OF vr]] assms(3)
    show False by simp
  qed
  then have "\<forall>v'. PutStateOp ?k v' \<in> set ?lg \<longrightarrow> v' = ''0''" by blast
  from commit_world_map [OF this, of l] none [of "''0''"] show ?thesis
    unfolding s by simp
qed

lemma unread_persists_step:
  assumes "wf_world (world l)" and "validateCompositeKeyAttribute receiver"
    and "map_of (world l) (noticeKey receiver sender) = Some ''1''"
    and "snd tx \<noteq> ReadNoticesCall receiver"
  shows "map_of (world (submit l tx)) (noticeKey receiver sender) = Some ''1''"
proof (cases "succeeds l tx")
  case False
  with assms(3) show ?thesis by (simp add: not_succeeds)
next
  case True
  obtain c cl where tx: "tx = (c, cl)" by (cases tx)
  show ?thesis
  proof (cases cl)
    case SendCall
    from succeeds_send [OF True [unfolded tx SendCall]] obtain p where "request c = Some p"
      by blast
    from send_world_map [OF True [unfolded tx SendCall] this, of "noticeKey receiver sender"]
      assms(3) tx SendCall
    show ?thesis by simp
  next
    case (ReadNoticesCall r)
    with assms(4) tx have "r \<noteq> receiver" by simp
    from read_notices_other_key [OF assms(1,2) this] assms(3) tx ReadNoticesCall
    show ?thesis by simp
  next
    case (ReadMessagesCall a b)
    with tx assms(3) show ?thesis by (simp add: read_messages_unchanged)
  next
    case (CreateNoticeCall s r)
    from create_notice_effect [OF True [unfolded tx CreateNoticeCall] assms(1),
        of "noticeKey receiver sender"] assms(3) tx CreateNoticeCall
    show ?thesis by simp
  next
    case (NoticeExistsCall k)
    with tx assms(3) show ?thesis by (simp add: notice_exists_unchanged)
  qed
qed

lemma unread_persists:
  assumes "wf_world (world l)" and "validateCompositeKeyAttribute receiver"
    and "map_of (world l) (noticeKey receiver sender) = Some ''1''"
    and "\<forall>tx \<in> set txs. snd tx \<noteq> ReadNoticesCall receiver"
  shows "map_of (world (run l txs)) (noticeKey receiver sender) = Some ''1''"
  using assms(1,3,4)
proof (induction txs arbitrary: l)
  case Nil
  then show ?case by (simp add: run_Nil)
next
  case (Cons tx txs)
  from Cons.prems(3) have "snd tx \<noteq> ReadNoticesCall receiver"
    and rest: "\<forall>tx \<in> set txs. snd tx \<noteq> ReadNoticesCall receiver"
    by simp_all
  from unread_persists_step [OF Cons.prems(1) assms(2) Cons.prems(2) this(1)]
    Cons.IH [OF submit_wf [OF Cons.prems(1)] _ rest]
  show ?case by (simp add: run_Cons)
qed

lemma single_entry:
  assumes "distinct (map fst w)" and "map_of w k = Some v"
  shows "filter (\<lambda>kv. fst kv = k) w = [(k, v)]"
  using assms
proof (induction w)
  case Nil
  then show ?case by simp
next
  case (Cons a w)
  show ?case
  proof (cases "fst a = k")
    case True
    with Cons.prems have "a = (k, v)" by (cases a) simp
    moreover from True Cons.prems(1) have "k \<notin> fst ` set w" by simp
    then have "\<forall>kv \<in> set w. fst kv \<noteq> k" by (metis imageI)
    then have "filter (\<lambda>kv. fst kv = k) w = []" by (simp add: filter_empty_conv)
    ultimately show ?thesis by simp
  next
    case False
    with Cons.prems(2) have "map_of w k = Some v" by (cases a) auto
    from Cons.IH [OF _ this] Cons.prems(1) False show ?thesis by simp
  qed
qed

lemma wf_world_distinct: "wf_world w \<Longrightarrow> distinct (map fst w)"
  by (simp add: wf_world_def strict_sorted_iff)

lemma reported_absent:
  assumes "a \<notin> fst ` set svs" and "a \<noteq> receiver"
  shows "count_list (map (reported receiver) svs) a = 0"
  using assms by (induction svs) (auto simp: reported_def)

lemma reported_once:
  assumes "distinct (map fst svs)" and "(a, ''1'') \<in> set svs" and "a \<noteq> receiver"
  shows "count_list (map (reported receiver) svs) a = 1"
  using assms(1,2)
proof (induction svs)
  case Nil
  then show ?case by simp
next
  case (Cons sv svs)
  show ?case
  proof (cases "sv = (a, ''1'')")
    case True
    with Cons.prems(1) have "a \<notin> fst ` set svs" by simp
    moreover from True have "reported receiver sv = a"
      by (simp add: reported_def)
    ultimately show ?thesis
      using reported_absent [OF _ assms(3), of svs] by simp
  next
    case False
    with Cons.prems have mem: "(a, ''1'') \<in> set svs" by simp
    then have "a \<in> fst ` set svs" by force
    with Cons.prems(1) have "fst sv \<noteq> a" by auto
    with assms(3) have "reported receiver sv \<noteq> a" by (simp add: reported_def)
    with Cons.IH [OF _ mem] Cons.prems(1) show ?thesis by simp
  qed
qed

lemma read_notices_total:
  assumes "\<forall>a. \<not> faulty c a" and "wf_world (world l)" and "validateCompositeKeyAttribute r"
  shows "\<exists>svs. filter (\<lambda>item. prefix (noticePrefix r) (fst item)) (world l) = map (entry r) svs
           \<and> (\<forall>sv \<in> set svs. validateCompositeKeyAttribute (fst sv))
           \<and> ReadMessageNotice (c\<lparr>state := l\<rparr>) r lg =
               (Inr (map (reported r) svs),
                lg @ RangeOp (noticePrefix r) # concat (map (drained r) svs))"
proof -
  from assms(2) have "\<forall>kv \<in> set (world l). notice_item kv"
    by (simp add: wf_world_def)
  from scan_entries [OF this assms(3)] obtain svs where svs:
    "filter (\<lambda>item. prefix (noticePrefix r) (fst item)) (world l) = map (entry r) svs"
    "\<forall>sv \<in> set svs. validateCompositeKeyAttribute (fst sv)"
    by blast
  have f: "\<forall>a. \<not> faulty (c\<lparr>state := l\<rparr>) a"
    using assms(1) by simp
  have "ReadMessageNotice (c\<lparr>state := l\<rparr>) r lg =
          (Inr (map (reported r) svs), lg @ RangeOp (noticePrefix r) # concat (map (drained r) svs))"
    using read_loop_total [OF f assms(3) svs(2), of "[]" "lg @ [RangeOp (noticePrefix r)]"]
      assms(1,3) svs(1)
    by (simp add: ReadMessageNotice_def GetStateByPartialCompositeKey_def CreateCompositeKey_prefix)
  with svs show ?thesis by blast
qed

lemma unread_reported_once:
  assumes "\<forall>a. \<not> faulty c a" and "wf_world (world l)"
    and "validateCompositeKeyAttribute receiver"
    and "map_of (world l) (noticeKey receiver sender) = Some ''1''"
    and "sender \<noteq> receiver"
  shows "\<exists>senders. fst (ReadMessageNotice (c\<lparr>state := l\<rparr>) receiver lg) = Inr senders
           \<and> count_list senders sender = 1"
proof -
  from read_notices_total [OF assms(1,2,3), of lg] obtain svs where svs:
    "filter (\<lambda>item. prefix (noticePrefix receiver) (fst item)) (world l) = map (entry receiver) svs"
    and res: "fst (ReadMessageNotice (c\<lparr>state := l\<rparr>) receiver lg) = Inr (map (reported receiver) svs)"
    by force
  have nul: "CHR 0x00 \<notin> set receiver"
    by (rule valid_no_nul [OF assms(3)])
  have "distinct (map fst (filter (\<lambda>item. prefix (noticePrefix receiver) (fst item)) (world l)))"
    using wf_world_distinct [OF assms(2)] by (rule distinct_map_filter)
  then have "distinct (map (noticeKey receiver) (map fst svs))"
    unfolding svs by (simp add: entry_def comp_def)
  then have d: "distinct (map fst svs)"
    using distinct_map [of "noticeKey receiver" "map fst svs"] by blast
  from assms(4) have "(noticeKey receiver sender, ''1'') \<in> set (world l)"
    by (rule map_of_SomeD)
  moreover have "prefix (noticePrefix receiver) (noticeKey receiver sender)"
    by (simp add: prefix_notice nul)
  ultimately have "(noticeKey receiver sender, ''1'') \<in> set (map (entry receiver) svs)"
    unfolding svs [symmetric] by simp
  then obtain sv where sv: "sv \<in> set svs" "noticeKey receiver sender = noticeKey receiver (fst sv)"
    "snd sv = ''1''"
    by (auto simp: entry_def)
  from noticeKey_inj [OF sv(2) nul nul] sv(1,3) have "(sender, ''1'') \<in> set svs"
    by (cases sv) simp
  from reported_once [OF d this assms(5)] res show ?thesis by simp
qed


lemma notice_already_unread:
  assumes "CreateCompositeKey ''mn'' [receiver, sender] = Inr key"
    and "map_of (world (state c)) key = Some ''1''"
    and "\<not> faulty c (GetStateOp key)"
  shows "CreateMessageNotice c sender receiver lg = (Inr (), lg @ [GetStateOp key])"
  using assms by (simp add: CreateMessageNotice_def GetState_def bytes_Equal_def)

section \<open>Rejections before any access to the state\<close>

lemma submit_failed:
  "fst (invoke ((fst tx)\<lparr>state := l\<rparr>) (snd tx)) = Inl e \<Longrightarrow> submit l tx = l"
  by (cases "invoke ((fst tx)\<lparr>state := l\<rparr>) (snd tx)") (simp add: submit_def)

lemma invoke_send_failed:
  "CreateConfidentialMessageBySender c [] = (Inl e, lg) \<Longrightarrow> fst (invoke c SendCall) = Inl e"
  by (simp add: lift_response_def)

text \<open>
  C8. A request with an empty sender, an empty list of receivers, an empty message or an
  empty note is rejected with the error of the first empty field, in the order the source
  tests them; no call to the state has been made (the record of accesses is the one the
  function started with), and submitting the transaction leaves the ledger as it was.
\<close>

theorem send_rejects_empty_field:
  assumes "transient c = Some transMap"
    and "transMap ''message'' = Some (Doc p)"
    and "Sender p = [] \<or> Receivers p = [] \<or> Message p = [] \<or> Note p = []"
  shows "CreateConfidentialMessageBySender (c\<lparr>state := l\<rparr>) lg =
           (Inl (if Sender p = [] then SenderFieldEmpty
                 else if Receivers p = [] then ReceiversFieldEmpty
                 else if Message p = [] then MessageFieldEmpty
                 else NoteFieldEmpty), lg)
         \<and> submit l (c, SendCall) = l"
proof -
  let ?e = "if Sender p = [] then SenderFieldEmpty
            else if Receivers p = [] then ReceiversFieldEmpty
            else if Message p = [] then MessageFieldEmpty
            else NoteFieldEmpty"
  have r: "CreateConfidentialMessageBySender (c\<lparr>state := l\<rparr>) lg' = (Inl ?e, lg')" for lg'
    using assms by (auto simp: CreateConfidentialMessageBySender_def json_Unmarshal_def)
  have "fst (invoke ((fst (c, SendCall))\<lparr>state := l\<rparr>) (snd (c, SendCall))) = Inl ?e"
    using invoke_send_failed [OF r [of "[]"]] by simp
  then have s: "submit l (c, SendCall) = l"
    by (rule submit_failed)
  show ?thesis
    by (rule conjI [OF r s])
qed

theorem send_rejects_empty_field_witness:
  "CreateConfidentialMessageBySender
     ((proposal ''A'' \<lparr>Sender = ''A'', Receivers = [], Message = ''hello'', Note = ''greeting''\<rparr>)
        \<lparr>state := run empty_ledger [hello ''A'' [''B'']]\<rparr>) []
     = (Inl ReceiversFieldEmpty, [])
   \<and> submit (run empty_ledger [hello ''A'' [''B'']])
        (proposal ''A'' \<lparr>Sender = ''A'', Receivers = [], Message = ''hello'', Note = ''greeting''\<rparr>,
         SendCall)
     = run empty_ledger [hello ''A'' [''B'']]"
  using send_rejects_empty_field
    [where c = "proposal ''A'' \<lparr>Sender = ''A'', Receivers = [], Message = ''hello'', Note = ''greeting''\<rparr>"
       and transMap = "[''message'' \<mapsto> Doc \<lparr>Sender = ''A'', Receivers = [], Message = ''hello'', Note = ''greeting''\<rparr>]"
       and p = "\<lparr>Sender = ''A'', Receivers = [], Message = ''hello'', Note = ''greeting''\<rparr>"
       and l = "run empty_ledger [hello ''A'' [''B'']]" and lg = "[]"]
  by (simp add: proposal_def)

text \<open>
  C10. When the transient map has no entry \<open>message\<close>, or the entry does not decode,
  the send returns the corresponding error whatever the identities of the client and of
  the peer are (also when they cannot be obtained), whatever the committed state is and
  whichever stub calls would fail; no call to the state has been made, and submitting the
  transaction leaves the ledger as it was.
\<close>

theorem send_rejects_missing_or_malformed_input:
  assumes "transient c = Some transMap"
    and "transMap ''message'' = None \<or> transMap ''message'' = Some Malformed"
  shows "CreateConfidentialMessageBySender
           (c\<lparr>clientMSPID := client, peerMSPID := peer, faulty := f, state := l\<rparr>) lg =
           (Inl (if transMap ''message'' = None then MessageNotFoundInTransient
                 else FailedUnmarshalJSON JSONSyntaxError), lg)
         \<and> submit l (c\<lparr>clientMSPID := client, peerMSPID := peer, faulty := f\<rparr>, SendCall) = l"
proof -
  let ?e = "if transMap ''message'' = None then MessageNotFoundInTransient
            else FailedUnmarshalJSON JSONSyntaxError"
  let ?c = "c\<lparr>clientMSPID := client, peerMSPID := peer, faulty := f\<rparr>"
  have r: "CreateConfidentialMessageBySender (?c\<lparr>state := l\<rparr>) lg' = (Inl ?e, lg')" for lg'
    using assms by (auto simp: CreateConfidentialMessageBySender_def json_Unmarshal_def)
  have "fst (invoke ((fst (?c, SendCall))\<lparr>state := l\<rparr>) (snd (?c, SendCall))) = Inl ?e"
    using invoke_send_failed [OF r [of "[]"]] by simp
  then have s: "submit l (?c, SendCall) = l"
    by (rule submit_failed)
  show ?thesis
    by (rule conjI [OF r s])
qed

theorem send_rejects_missing_or_malformed_input_witness:
  "CreateConfidentialMessageBySender
     ((query ''A'')\<lparr>clientMSPID := None, peerMSPID := None, faulty := (\<lambda>a. True),
                     state := run empty_ledger [hello ''A'' [''B'']]\<rparr>) []
     = (Inl MessageNotFoundInTransient, [])
   \<and> submit (run empty_ledger [hello ''A'' [''B'']])
        ((query ''A'')\<lparr>clientMSPID := None, peerMSPID := None, faulty := (\<lambda>a. True)\<rparr>, SendCall)
     = run empty_ledger [hello ''A'' [''B'']]"
  using send_rejects_missing_or_malformed_input
    [where c = "query ''A''" and transMap = "\<lambda>k. None" and client = None and peer = None
       and f = "\<lambda>a. True" and l = "run empty_ledger [hello ''A'' [''B'']]" and lg = "[]"]
  by (simp add: query_def)

text \<open>
  C5. A send whose request passes the field checks and names a sender whose MSP id is
  not that of the submitting client is rejected with the mismatch error before any call to
  the state, and the ledger is left as it was. A read of messages by a client whose MSP id
  is not that of the addressed receiver is rejected with the mismatch error, again before
  any call to the state.
\<close>

theorem identity_mismatch_rejected:
  "(transient c = Some transMap \<and> transMap ''message'' = Some (Doc p)
      \<and> Sender p \<noteq> [] \<and> Receivers p \<noteq> [] \<and> Message p \<noteq> [] \<and> Note p \<noteq> []
      \<and> clientMSPID c = Some client \<and> Sender p @ ''MSP'' \<noteq> client
    \<longrightarrow> CreateConfidentialMessageBySender (c\<lparr>state := l\<rparr>) lg =
          (Inl (SenderClientMismatch (Sender p) client), lg)
        \<and> submit l (c, SendCall) = l)
   \<and> (clientMSPID c = Some client \<and> receiver @ ''MSP'' \<noteq> client
    \<longrightarrow> ReadConfidentialMessage (c\<lparr>state := l\<rparr>) sender receiver lg =
          (Inl ReceiverClientMismatch, lg)
        \<and> submit l (c, ReadMessagesCall sender receiver) = l)"
proof (intro conjI impI)
  assume a: "transient c = Some transMap \<and> transMap ''message'' = Some (Doc p)
      \<and> Sender p \<noteq> [] \<and> Receivers p \<noteq> [] \<and> Message p \<noteq> [] \<and> Note p \<noteq> []
      \<and> clientMSPID c = Some client \<and> Sender p @ ''MSP'' \<noteq> client"
  have r: "CreateConfidentialMessageBySender (c\<lparr>state := l\<rparr>) lg' =
          (Inl (SenderClientMismatch (Sender p) client), lg')" for lg'
    using a by (simp add: CreateConfidentialMessageBySender_def json_Unmarshal_def)
  show "CreateConfidentialMessageBySender (c\<lparr>state := l\<rparr>) lg =
          (Inl (SenderClientMismatch (Sender p) client), lg)"
    by (rule r)
  have "fst (invoke ((fst (c, SendCall))\<lparr>state := l\<rparr>) (snd (c, SendCall)))
          = Inl (SenderClientMismatch (Sender p) client)"
    using invoke_send_failed [OF r [of "[]"]] by simp
  then show "submit l (c, SendCall) = l"
    by (rule submit_failed)
next
  assume a: "clientMSPID c = Some client \<and> receiver @ ''MSP'' \<noteq> client"
  have r: "ReadConfidentialMessage (c\<lparr>state := l\<rparr>) sender receiver lg' =
          (Inl ReceiverClientMismatch, lg')" for lg'
    using a by (simp add: ReadConfidentialMessage_def)
  show "ReadConfidentialMessage (c\<lparr>state := l\<rparr>) sender receiver lg =
          (Inl ReceiverClientMismatch, lg)"
    by (rule r)
  have "fst (invoke ((fst (c, ReadMessagesCall sender receiver))\<lparr>state := l\<rparr>)
               (snd (c, ReadMessagesCall sender receiver))) = Inl ReceiverClientMismatch"
    by (simp add: r lift_response_def)
  then show "submit l (c, ReadMessagesCall sender receiver) = l"
    by (rule submit_failed)
qed

theorem identity_mismatch_rejected_witness:
  "(CreateConfidentialMessageBySender
      ((proposal ''C'' \<lparr>Sender = ''A'', Receivers = [''B''], Message = ''hello'',
                        Note = ''greeting''\<rparr>)\<lparr>state := empty_ledger\<rparr>) []
      = (Inl (SenderClientMismatch ''A'' ''CMSP''), [])
    \<and> submit empty_ledger
        (proposal ''C'' \<lparr>Sender = ''A'', Receivers = [''B''], Message = ''hello'',
                         Note = ''greeting''\<rparr>, SendCall) = empty_ledger)
   \<and> (ReadConfidentialMessage ((query ''C'')\<lparr>state := run empty_ledger [hello ''A'' [''B'']]\<rparr>)
        ''A'' ''B'' [] = (Inl ReceiverClientMismatch, [])
    \<and> submit (run empty_ledger [hello ''A'' [''B'']]) (query ''C'', ReadMessagesCall ''A'' ''B'')
        = run empty_ledger [hello ''A'' [''B'']])"
  using identity_mismatch_rejected
    [where c = "proposal ''C'' \<lparr>Sender = ''A'', Receivers = [''B''], Message = ''hello'', Note = ''greeting''\<rparr>"
       and transMap = "[''message'' \<mapsto> Doc \<lparr>Sender = ''A'', Receivers = [''B''], Message = ''hello'', Note = ''greeting''\<rparr>]"
       and p = "\<lparr>Sender = ''A'', Receivers = [''B''], Message = ''hello'', Note = ''greeting''\<rparr>"
       and client = "''CMSP''" and l = empty_ledger and lg = "[]" and receiver = "''B''"
       and sender = "''A''"]
    identity_mismatch_rejected
    [where c = "query ''C''" and client = "''CMSP''"
       and l = "run empty_ledger [hello ''A'' [''B'']]" and lg = "[]" and receiver = "''B''"
       and sender = "''A''"]
  by (simp add: proposal_def query_def)

section \<open>Reading a mailbox\<close>

text \<open>
  C7. For a client of the receiver's organisation, when the read of the private data
  does not fail: with no record stored under the sender's collection and the receiver's
  key the result is the error \<open>NoMessage\<close>; with a stored record it is the record's
  messages, each converted to a string (the same bytes), and its notes, both in the stored
  order. The only call to the state is the read.
\<close>

theorem readMailbox_result:
  assumes "clientMSPID c = Some (receiver @ ''MSP'')"
    and "\<not> faulty c (GetPrivateOp (sender @ ''MSPCollection'') receiver)"
  shows "(pdc (state c) (sender @ ''MSPCollection'', receiver) = None \<longrightarrow>
            ReadConfidentialMessage c sender receiver lg =
              (Inl (NoMessage receiver (sender @ ''MSPCollection'')),
               lg @ [GetPrivateOp (sender @ ''MSPCollection'') receiver]))
       \<and> (pdc (state c) (sender @ ''MSPCollection'', receiver) = Some (Doc m) \<longrightarrow>
            ReadConfidentialMessage c sender receiver lg =
              (Inr \<lparr>retMessages = mfrMessages m, retNotes = mfrNotes m\<rparr>,
               lg @ [GetPrivateOp (sender @ ''MSPCollection'') receiver]))"
proof -
  have conv: "map string_of_bytes xs = xs" for xs
    by (induction xs) (simp_all add: string_of_bytes_def)
  show ?thesis
    using assms
    by (simp add: ReadConfidentialMessage_def GetPrivateData_def json_Unmarshal_def conv)
qed

theorem readMailbox_result_witness:
  "ReadConfidentialMessage ((query ''B'')\<lparr>state := empty_ledger\<rparr>) ''A'' ''B'' [] =
     (Inl (NoMessage ''B'' ''AMSPCollection''), [GetPrivateOp ''AMSPCollection'' ''B''])
   \<and> ReadConfidentialMessage ((query ''B'')\<lparr>state := run empty_ledger [hello ''A'' [''B'']]\<rparr>)
       ''A'' ''B'' [] =
     (Inr \<lparr>retMessages = [''hello''], retNotes = [''greeting'']\<rparr>,
      [GetPrivateOp ''AMSPCollection'' ''B''])"
proof -
  have stored: "pdc (run empty_ledger [hello ''A'' [''B'']]) (''A'' @ ''MSPCollection'', ''B'') =
      Some (Doc \<lparr>mfrSender = ''A'', mfrReceiver = ''B'', mfrMessages = [''hello''],
                 mfrNotes = [''greeting'']\<rparr>)"
    by code_simp
  have none: "pdc empty_ledger (''A'' @ ''MSPCollection'', ''B'') = None"
    by (simp add: empty_ledger_def)
  show ?thesis
    using readMailbox_result
            [where c = "(query ''B'')\<lparr>state := empty_ledger\<rparr>" and receiver = "''B''"
               and sender = "''A''" and lg = "[]"]
          readMailbox_result
            [where c = "(query ''B'')\<lparr>state := run empty_ledger [hello ''A'' [''B'']]\<rparr>"
               and receiver = "''B''" and sender = "''A''" and lg = "[]"
               and m = "\<lparr>mfrSender = ''A'', mfrReceiver = ''B'', mfrMessages = [''hello''],
                         mfrNotes = [''greeting'']\<rparr>"]
          stored none
    by (simp add: query_def)
qed

section \<open>Reading notices\<close>

text \<open>
  C1. The attributes of a notice key are the receiver and then the sender. After a send
  from A to B, the first read of B's notices returns A and marks the notice read. The
  second read, with no send in between, takes the branch for a notice already read, which
  appends the attribute at index 0, the receiver: it returns B, not A.
\<close>

theorem second_readNotices_returns_receiver:
  "SplitCompositeKey (noticeKey ''B'' ''A'') = Inr (''mn'', [''B'', ''A''])
   \<and> fst (invoke ((query ''B'')\<lparr>state := run empty_ledger [hello ''A'' [''B'']]\<rparr>)
          (ReadNoticesCall ''B'')) = Inr (SendersResponse [''A''])
   \<and> world (run empty_ledger [hello ''A'' [''B''], (query ''B'', ReadNoticesCall ''B'')])
       = [(noticeKey ''B'' ''A'', ''0'')]
   \<and> fst (invoke ((query ''B'')\<lparr>state := run empty_ledger
                      [hello ''A'' [''B''], (query ''B'', ReadNoticesCall ''B'')]\<rparr>)
          (ReadNoticesCall ''B'')) = Inr (SendersResponse [''B''])"
  by code_simp

text \<open>
  C2. A client of organisation C reads the notices of receiver B: the call succeeds,
  returns B's senders and, once committed, has marked B's notice read. The function never
  looks at the identity of the client.
\<close>

theorem readNotices_by_other_organisation:
  "clientMSPID (query ''C'') = Some ''CMSP''
   \<and> fst (invoke ((query ''C'')\<lparr>state := run empty_ledger [hello ''A'' [''B'']]\<rparr>)
          (ReadNoticesCall ''B'')) = Inr (SendersResponse [''A''])
   \<and> world (run empty_ledger [hello ''A'' [''B'']]) = [(noticeKey ''B'' ''A'', ''1'')]
   \<and> world (submit (run empty_ledger [hello ''A'' [''B'']]) (query ''C'', ReadNoticesCall ''B''))
       = [(noticeKey ''B'' ''A'', ''0'')]"
  by code_simp

section \<open>The mailbox grows by appending\<close>

text \<open>
  C3. Take any sequence of transactions run from the empty ledger, and let the
  deliveries be the requests of its successful sends that name the sender and list the
  receiver, in the order of the transactions; let n be their number. A read of the
  messages by a client of the receiver's organisation then returns exactly the n messages
  and the n notes of the deliveries, position by position and in the order sent (and the
  error \<open>NoMessage\<close> when n = 0). Running further transactions only extends the list of
  deliveries, so what was returned before stays a prefix of what is returned later: no
  earlier message or note is altered.
\<close>

theorem mailbox_monotonic:
  assumes "clientMSPID c = Some (receiver @ ''MSP'')"
    and "\<not> faulty c (GetPrivateOp (sender @ ''MSPCollection'') receiver)"
  shows "fst (ReadConfidentialMessage (c\<lparr>state := run empty_ledger txs\<rparr>) sender receiver lg) =
           (if filter (addressed sender receiver) (successful_sends empty_ledger txs) = []
            then Inl (NoMessage receiver (sender @ ''MSPCollection''))
            else Inr \<lparr>retMessages =
                        map Message (filter (addressed sender receiver)
                                       (successful_sends empty_ledger txs)),
                      retNotes =
                        map Note (filter (addressed sender receiver)
                                    (successful_sends empty_ledger txs))\<rparr>)
         \<and> prefix (filter (addressed sender receiver) (successful_sends empty_ledger txs))
             (filter (addressed sender receiver) (successful_sends empty_ledger (txs @ txs')))"
proof
  let ?c = "c\<lparr>state := run empty_ledger txs\<rparr>"
  have "clientMSPID ?c = Some (receiver @ ''MSP'')"
    and "\<not> faulty ?c (GetPrivateOp (sender @ ''MSPCollection'') receiver)"
    using assms by simp_all
  moreover have "pdc empty_ledger k = None" for k
    by (simp add: empty_ledger_def)
  ultimately show "fst (ReadConfidentialMessage ?c sender receiver lg) =
           (if filter (addressed sender receiver) (successful_sends empty_ledger txs) = []
            then Inl (NoMessage receiver (sender @ ''MSPCollection''))
            else Inr \<lparr>retMessages =
                        map Message (filter (addressed sender receiver)
                                       (successful_sends empty_ledger txs)),
                      retNotes =
                        map Note (filter (addressed sender receiver)
                                    (successful_sends empty_ledger txs))\<rparr>)"
    using read_mailbox_eval [of ?c receiver sender lg] run_mailbox [OF wf_empty, of txs sender receiver]
    by (simp add: Let_def mailbox_empty)
next
  show "prefix (filter (addressed sender receiver) (successful_sends empty_ledger txs))
             (filter (addressed sender receiver) (successful_sends empty_ledger (txs @ txs')))"
    by (simp add: successful_sends_append)
qed

theorem mailbox_monotonic_witness:
  "fst (ReadConfidentialMessage ((query ''B'')\<lparr>state := run empty_ledger [first_msg, second_msg]\<rparr>)
          ''A'' ''B'' []) =
     Inr \<lparr>retMessages = [''m1'', ''m2''], retNotes = [''n1'', ''n2'']\<rparr>"
proof -
  have ds: "filter (addressed ''A'' ''B'') (successful_sends empty_ledger [first_msg, second_msg]) =
      [\<lparr>Sender = ''A'', Receivers = [''B'', ''C''], Message = ''m1'', Note = ''n1''\<rparr>,
       \<lparr>Sender = ''A'', Receivers = [''B''], Message = ''m2'', Note = ''n2''\<rparr>]"
    by code_simp
  have "clientMSPID (query ''B'') = Some (''B'' @ ''MSP'')"
    and "\<not> faulty (query ''B'') (GetPrivateOp (''A'' @ ''MSPCollection'') ''B'')"
    by (simp_all add: query_def)
  from mailbox_monotonic [OF this, of "[first_msg, second_msg]" "[]" "[]"]
  show ?thesis unfolding ds by simp
qed

section \<open>Notices exist exactly for the pairs that were notified\<close>




section \<open>Repeated sends and the notice\<close>

text \<open>
  What holds of the notice after repeated sends. When the notice of a receiver and a
  sender already carries the flag \<open>1\<close>, CreateMessageNotice only reads it: it returns
  without error, its only call to the state is that read, and committing adds nothing to
  the write set. In any ledger reached from the empty one, after a successful send from
  the sender to the receiver, any transactions that are not a read of the receiver's
  notices, and a second successful send, the world state has exactly one entry under the
  key of the pair, flagged \<open>1\<close>; and when the sender is not the receiver itself, a read
  of the receiver's notices on which no stub call fails returns the sender exactly once.
\<close>

lemma notice_unread_after_sends:
  "(CreateCompositeKey ''mn'' [receiver, sender] = Inr key
      \<and> map_of (world (state c)) key = Some ''1'' \<and> \<not> faulty c (GetStateOp key)
    \<longrightarrow> CreateMessageNotice c sender receiver lg = (Inr (), lg @ [GetStateOp key])
        \<and> commit l (lg @ [GetStateOp key]) = commit l lg)
   \<and> (sent (run empty_ledger txs) tx1 = [p1] \<and> addressed sender receiver p1
      \<and> (\<forall>tx \<in> set mid. snd tx \<noteq> ReadNoticesCall receiver)
      \<and> sent (run empty_ledger (txs @ tx1 # mid)) tx2 = [p2] \<and> addressed sender receiver p2
    \<longrightarrow> filter (\<lambda>kv. fst kv = noticeKey receiver sender)
          (world (run empty_ledger (txs @ tx1 # mid @ [tx2])))
          = [(noticeKey receiver sender, ''1'')]
        \<and> ((\<forall>a. \<not> faulty c' a) \<and> sender \<noteq> receiver
           \<longrightarrow> (\<exists>senders.
                  fst (ReadMessageNotice
                         (c'\<lparr>state := run empty_ledger (txs @ tx1 # mid @ [tx2])\<rparr>) receiver lg')
                    = Inr senders
                  \<and> count_list senders sender = 1)))"
proof (intro conjI impI)
  assume "CreateCompositeKey ''mn'' [receiver, sender] = Inr key
      \<and> map_of (world (state c)) key = Some ''1'' \<and> \<not> faulty c (GetStateOp key)"
  then show "CreateMessageNotice c sender receiver lg = (Inr (), lg @ [GetStateOp key])"
    by (simp add: notice_already_unread)
next
  show "commit l (lg @ [GetStateOp key]) = commit l lg"
    by (simp add: commit_snoc)
next
  let ?S = "run empty_ledger txs"
  let ?L = "run empty_ledger (txs @ tx1 # mid @ [tx2])"
  let ?k = "noticeKey receiver sender"
  assume h: "sent ?S tx1 = [p1] \<and> addressed sender receiver p1
      \<and> (\<forall>tx \<in> set mid. snd tx \<noteq> ReadNoticesCall receiver)
      \<and> sent (run empty_ledger (txs @ tx1 # mid)) tx2 = [p2] \<and> addressed sender receiver p2"
  have wf0: "wf_world (world ?S)"
    by (rule run_wf [OF wf_empty])
  from h sent_cases [of ?S tx1] obtain c1 where tx1: "tx1 = (c1, SendCall)"
    "succeeds ?S (c1, SendCall)" "request c1 = Some p1"
    by auto
  from h have p1: "Sender p1 = sender" "receiver \<in> set (Receivers p1)"
    by (simp_all add: addressed_def)
  from h have "p1 \<in> set (sent ?S tx1)" by simp
  from sent_valid [OF this] p1 have vr: "validateCompositeKeyAttribute receiver" by blast
  have m1: "map_of (world (submit ?S tx1)) ?k = Some ''1''"
    using send_world_map [OF tx1(2,3), of ?k] p1 tx1(1) by auto
  from h sent_cases [of "run empty_ledger (txs @ tx1 # mid)" tx2]
  have "snd tx2 = SendCall" by auto
  with h have all: "\<forall>tx \<in> set (mid @ [tx2]). snd tx \<noteq> ReadNoticesCall receiver"
    by simp
  have L: "?L = run (submit ?S tx1) (mid @ [tx2])"
    by (simp add: run_append run_Cons)
  have m: "map_of (world ?L) ?k = Some ''1''"
    unfolding L by (rule unread_persists [OF submit_wf [OF wf0] vr m1 all])
  have wf: "wf_world (world ?L)"
    by (rule run_wf [OF wf_empty])
  show "filter (\<lambda>kv. fst kv = ?k) (world ?L) = [(?k, ''1'')]"
    by (rule single_entry [OF wf_world_distinct [OF wf] m])
  assume "(\<forall>a. \<not> faulty c' a) \<and> sender \<noteq> receiver"
  then have f: "\<forall>a. \<not> faulty c' a" and ne: "sender \<noteq> receiver" by simp_all
  show "\<exists>senders. fst (ReadMessageNotice (c'\<lparr>state := ?L\<rparr>) receiver lg') = Inr senders
                  \<and> count_list senders sender = 1"
    by (rule unread_reported_once [OF f wf vr m ne])
qed

text \<open>
  C4. The count of one fails when an organisation sends to itself. C sends to A and A
  reads its notices, which marks the notice of C read; then A sends to itself twice with
  no read of its notices in between. The world state has exactly one entry for the pair
  (A, A), flagged unread, as the claim says. The read of A's notices reports that entry
  as A and reports the notice of C, already read, through the attribute at index 0, the
  receiver A (the slip of C1): it returns A twice.
\<close>

theorem self_send_reported_twice:
  "world (run empty_ledger [hello ''C'' [''A''], (query ''A'', ReadNoticesCall ''A'')])
     = [(noticeKey ''A'' ''C'', ''0'')]
   \<and> sent (run empty_ledger [hello ''C'' [''A''], (query ''A'', ReadNoticesCall ''A'')])
         (hello ''A'' [''A''])
       = [\<lparr>Sender = ''A'', Receivers = [''A''], Message = ''hello'', Note = ''greeting''\<rparr>]
   \<and> sent (run empty_ledger [hello ''C'' [''A''], (query ''A'', ReadNoticesCall ''A''),
                               hello ''A'' [''A'']])
         (hello ''A'' [''A''])
       = [\<lparr>Sender = ''A'', Receivers = [''A''], Message = ''hello'', Note = ''greeting''\<rparr>]
   \<and> world (run empty_ledger [hello ''C'' [''A''], (query ''A'', ReadNoticesCall ''A''),
                                hello ''A'' [''A''], hello ''A'' [''A'']])
       = [(noticeKey ''A'' ''A'', ''1''), (noticeKey ''A'' ''C'', ''0'')]
   \<and> fst (invoke ((query ''A'')\<lparr>state := run empty_ledger
                      [hello ''C'' [''A''], (query ''A'', ReadNoticesCall ''A''),
                       hello ''A'' [''A''], hello ''A'' [''A'']]\<rparr>)
          (ReadNoticesCall ''A'')) = Inr (SendersResponse [''A'', ''A''])"
  by code_simp

section \<open>Two sends on one snapshot\<close>

lemma send_conflict:
  assumes "sent l tx1 = [p1]" and "addressed sender receiver p1"
    and "sent l tx2 = [p2]" and "addressed sender receiver p2"
  shows "submit_concurrent l tx1 tx2 = (submit l tx1, Valid NoResponse, MVCCConflict)"
proof -
  from assms(1) sent_cases [of l tx1] obtain c1 where tx1: "tx1 = (c1, SendCall)"
    "succeeds l (c1, SendCall)" "request c1 = Some p1"
    by auto
  from assms(3) sent_cases [of l tx2] obtain c2 where tx2: "tx2 = (c2, SendCall)"
    "succeeds l (c2, SendCall)" "request c2 = Some p2"
    by auto
  let ?lg1 = "concat (map (deliver l p1) (Receivers p1))"
  let ?lg2 = "concat (map (deliver l p2) (Receivers p2))"
  from succeeds_send [OF tx1(2)] tx1(3)
  have i1: "invoke (c1\<lparr>state := l\<rparr>) SendCall = (Inr NoResponse, ?lg1)"
    and s1: "submit l (c1, SendCall) = commit l ?lg1"
    by auto
  from succeeds_send [OF tx2(2)] tx2(3)
  have i2: "invoke (c2\<lparr>state := l\<rparr>) SendCall = (Inr NoResponse, ?lg2)"
    by auto
  from assms(2,4) have a: "Sender p1 = sender" "receiver \<in> set (Receivers p1)"
    "Sender p2 = sender" "receiver \<in> set (Receivers p2)"
    by (simp_all add: addressed_def)
  have w: "PutPrivateOp (sender @ ''MSPCollection'') receiver (Doc (appended l p1 receiver))
             \<in> set ?lg1"
    unfolding deliver_put_private using a by simp
  have "GetPrivateOp (sender @ ''MSPCollection'') receiver \<in> set (deliver l p2 receiver)"
    using a by (simp add: deliver_def)
  with a(4) have r: "GetPrivateOp (sender @ ''MSPCollection'') receiver \<in> set ?lg2"
    by auto
  have "invalidates
          (PutPrivateOp (sender @ ''MSPCollection'') receiver (Doc (appended l p1 receiver)))
          (GetPrivateOp (sender @ ''MSPCollection'') receiver)"
    by simp
  with w r have "stale ?lg1 ?lg2"
    unfolding stale_def list_ex_iff by blast
  with i1 i2 s1 tx1(1) tx2(1) show ?thesis
    by (simp add: submit_concurrent_def)
qed

lemma resubmitted_send:
  assumes "sent l tx1 = [p1]" and "addressed sender receiver p1"
    and "sent (submit l tx1) tx2 = [p2]" and "addressed sender receiver p2"
  shows "mailbox (submit (submit l tx1) tx2) sender receiver =
           (fst (mailbox l sender receiver) @ [Message p1, Message p2],
            snd (mailbox l sender receiver) @ [Note p1, Note p2])"
proof -
  from assms(1) sent_cases [of l tx1] obtain c1 where tx1: "tx1 = (c1, SendCall)"
    "succeeds l (c1, SendCall)" "request c1 = Some p1"
    by auto
  from assms(3) sent_cases [of "submit l tx1" tx2] obtain c2 where tx2: "tx2 = (c2, SendCall)"
    "succeeds (submit l tx1) (c2, SendCall)" "request c2 = Some p2"
    by auto
  from assms(2,4) have a: "Sender p1 = sender" "receiver \<in> set (Receivers p1)"
    "Sender p2 = sender" "receiver \<in> set (Receivers p2)"
    by (simp_all add: addressed_def)
  have 1: "pdc (submit l tx1) (sender @ ''MSPCollection'', receiver) =
             Some (Doc (appended l p1 receiver))"
    using send_pdc [OF tx1(2,3), of "sender @ ''MSPCollection''" receiver] a tx1(1) by simp
  have 2: "pdc (submit (submit l tx1) tx2) (sender @ ''MSPCollection'', receiver) =
             Some (Doc (appended (submit l tx1) p2 receiver))"
    using send_pdc [OF tx2(2,3), of "sender @ ''MSPCollection''" receiver] a tx2(1) by simp
  show ?thesis
    using 1 2 a
    by (auto simp: mailbox_def appended_def split: option.splits json.splits)
qed

text \<open>
  C9. Two successful sends from the same sender that list the same receiver are
  simulated against one committed state and ordered either way. The one ordered first is
  committed, and the mailbox record then holds its message after the earlier ones; the one
  ordered second is rejected for a conflict, because it read the mailbox record the first
  has written, and nothing of it is committed. So the outcome is never a committed record
  that silently lacks a message of a transaction reported valid: the caller of the second
  is told to resubmit. When the rejected send is resubmitted against the new state and
  succeeds, the record holds both messages and both notes, in the order committed.
\<close>

theorem concurrent_sends_conflict:
  assumes "sent l tx1 = [p1]" and "addressed sender receiver p1"
    and "sent l tx2 = [p2]" and "addressed sender receiver p2"
  shows "submit_concurrent l tx1 tx2 = (submit l tx1, Valid NoResponse, MVCCConflict)
       \<and> submit_concurrent l tx2 tx1 = (submit l tx2, Valid NoResponse, MVCCConflict)
       \<and> mailbox (submit l tx1) sender receiver =
           (fst (mailbox l sender receiver) @ [Message p1],
            snd (mailbox l sender receiver) @ [Note p1])
       \<and> mailbox (submit l tx2) sender receiver =
           (fst (mailbox l sender receiver) @ [Message p2],
            snd (mailbox l sender receiver) @ [Note p2])
       \<and> (sent (submit l tx1) tx2 = [p2] \<longrightarrow>
            mailbox (submit (submit l tx1) tx2) sender receiver =
              (fst (mailbox l sender receiver) @ [Message p1, Message p2],
               snd (mailbox l sender receiver) @ [Note p1, Note p2]))"
proof -
  have one: "mailbox (submit l tx) sender receiver =
           (fst (mailbox l sender receiver) @ [Message p],
            snd (mailbox l sender receiver) @ [Note p])"
    if "sent l tx = [p]" and "addressed sender receiver p" for tx p
  proof -
    from that(1) sent_cases [of l tx] obtain c where tx: "tx = (c, SendCall)"
      "succeeds l (c, SendCall)" "request c = Some p"
      by auto
    from that(2) have a: "Sender p = sender" "receiver \<in> set (Receivers p)"
      by (simp_all add: addressed_def)
    have "pdc (submit l tx) (sender @ ''MSPCollection'', receiver) =
             Some (Doc (appended l p receiver))"
      using send_pdc [OF tx(2,3), of "sender @ ''MSPCollection''" receiver] a tx(1) by simp
    then show ?thesis
      using a by (auto simp: mailbox_def appended_def split: option.splits json.splits)
  qed
  from send_conflict [OF assms] send_conflict [OF assms(3,4,1,2)]
    one [OF assms(1,2)] one [OF assms(3,4)] resubmitted_send [OF assms(1,2) _ assms(4)]
  show ?thesis by blast
qed

theorem concurrent_sends_conflict_witness:
  "snd (submit_concurrent empty_ledger first_msg second_msg) = (Valid NoResponse, MVCCConflict)
   \<and> snd (submit_concurrent empty_ledger second_msg first_msg) = (Valid NoResponse, MVCCConflict)
   \<and> mailbox (submit empty_ledger first_msg) ''A'' ''B'' = ([''m1''], [''n1''])
   \<and> mailbox (submit (submit empty_ledger first_msg) second_msg) ''A'' ''B'' =
       ([''m1'', ''m2''], [''n1'', ''n2''])"
proof -
  have s1: "sent empty_ledger first_msg =
      [\<lparr>Sender = ''A'', Receivers = [''B'', ''C''], Message = ''m1'', Note = ''n1''\<rparr>]"
    by code_simp
  have s2: "sent empty_ledger second_msg =
      [\<lparr>Sender = ''A'', Receivers = [''B''], Message = ''m2'', Note = ''n2''\<rparr>]"
    by code_simp
  have s3: "sent (submit empty_ledger first_msg) second_msg =
      [\<lparr>Sender = ''A'', Receivers = [''B''], Message = ''m2'', Note = ''n2''\<rparr>]"
    by code_simp
  have a1: "addressed ''A'' ''B''
      \<lparr>Sender = ''A'', Receivers = [''B'', ''C''], Message = ''m1'', Note = ''n1''\<rparr>"
    and a2: "addressed ''A'' ''B''
      \<lparr>Sender = ''A'', Receivers = [''B''], Message = ''m2'', Note = ''n2''\<rparr>"
    by (simp_all add: addressed_def)
  have e: "mailbox empty_ledger ''A'' ''B'' = ([], [])"
    by (simp add: mailbox_def empty_ledger_def)
  from concurrent_sends_conflict [OF s1 a1 s2 a2] s3 e
  show ?thesis by simp
qed

end
